theory Spec2Isabelle
  imports Main "HOL-Library.Word"
begin

unbundle bit_operations_syntax

section \<open>Bytes, pointers and allocation\<close>

text \<open>
  A C \<^verbatim>\<open>char\<close> is a \<^typ>\<open>char\<close>; the parser only ever compares bytes for equality.
  A buffer is the list of the bytes of the memory region that a \<^verbatim>\<open>char*\<close> points to, and a
  pointer into it is an offset (\<^typ>\<open>nat\<close>); a pointer that may be \<^verbatim>\<open>NULL\<close> is a
  \<^typ>\<open>nat option\<close>.  Results are \<^typ>\<open>'a option\<close>: \<open>None\<close> stands for an aborted run
  (a failed \<^verbatim>\<open>assert\<close>) or for an access that C leaves undefined (a write outside the
  buffer, arithmetic on a null pointer).
\<close>

abbreviation NUL :: char where "NUL \<equiv> CHR 0x00"
abbreviation LF :: char where "LF \<equiv> CHR 0x0A"
abbreviation CR :: char where "CR \<equiv> CHR 0x0D"

text \<open>The C string that starts at offset \<open>p\<close> of a buffer: the bytes up to the first NUL.\<close>

definition cstr :: "char list \<Rightarrow> nat \<Rightarrow> string" where
  "cstr mem p = takeWhile (\<lambda>c. c \<noteq> NUL) (drop p mem)"

text \<open>
  \<^verbatim>\<open>malloc\<close>, \<^verbatim>\<open>calloc\<close> and \<^verbatim>\<open>realloc\<close> may fail.  Whether a request succeeds is a
  parameter of the model: a predicate on what is requested.  The three \<^verbatim>\<open>realloc\<close>s of
  \<^verbatim>\<open>expand\<close> ask for the same number of elements and are one request.
\<close>

datatype request = FieldArrays nat | Bytes int | Parser

text \<open>
  Modelled from the spec: the error numbers \<^verbatim>\<open>CSV_E...\<close> are macros of \<^verbatim>\<open>csv.h\<close>, which
  is not part of the sources; they are kept symbolic, with \<open>CSV_NOERR\<close> for the value 0 that
  \<^verbatim>\<open>calloc\<close> leaves in \<^verbatim>\<open>errnum\<close> and that \<^verbatim>\<open>csv_scan\<close> passes to \<^verbatim>\<open>on_error\<close>.
\<close>

datatype errnum_t = CSV_NOERR | CSV_EPARAM | CSV_EOUTOFMEMORY | CSV_EQUOTE | CSV_ECRLF
  | CSV_EEXTRAINPUT

section \<open>The scanner\<close>

record scan_t =
  bmap :: "16 word"
  base :: nat
  qend :: nat          \<comment> \<open>the field \<^verbatim>\<open>q\<close>\<close>
  match :: "char list" \<comment> \<open>the 16 lanes: qte, esc, delim, CR, LF, 0, ...\<close>
  matchlen :: int

text \<open>
  \<^verbatim>\<open>_mm_cmpestrm(match, matchlen, pval, plen, _SIDD_CMP_EQUAL_ANY | _SIDD_UBYTE_OPS)\<close>:
  bit \<open>i\<close> of the mask is set when lane \<open>i\<close> of the 16 bytes loaded at \<open>p\<close> is valid
  (\<open>i < min 16 |plen|\<close>) and equals one of the valid lanes of \<open>match\<close>.  Lanes beyond
  \<open>plen\<close> are loaded but never looked at.
\<close>

definition fillbmap :: "char list \<Rightarrow> nat \<Rightarrow> int \<Rightarrow> char list \<Rightarrow> int \<Rightarrow> 16 word" where
  "fillbmap mem p plen mtch mlen =
     horner_sum of_bool 2
       (map (\<lambda>i. i < min 16 (nat \<bar>plen\<bar>) \<and>
                 mem ! (p + i) \<in> set (take (min 16 (nat \<bar>mlen\<bar>)) mtch))
            [0..<16])"

definition scan_reset :: "char list \<Rightarrow> scan_t \<Rightarrow> nat \<Rightarrow> nat \<Rightarrow> scan_t" where
  "scan_reset mem sp p q =
     sp\<lparr>base := p, qend := q,
        bmap := fillbmap mem p (int q - int p) (match sp) (matchlen sp)\<rparr>"

text \<open>
  \<^verbatim>\<open>__scan_forward\<close>: the local \<^verbatim>\<open>base\<close> is the second argument; it is stored back only when a
  window with a match was found.
\<close>

function scan_forward :: "char list \<Rightarrow> scan_t \<Rightarrow> nat \<Rightarrow> scan_t \<times> int" where
  "scan_forward mem sp b =
     (if bmap sp = 0 then
        (if qend sp \<le> b + 16 then (sp, -1)
         else scan_forward mem
                (sp\<lparr>bmap := fillbmap mem (b + 16) (int (qend sp) - int (b + 16))
                                (match sp) (matchlen sp)\<rparr>)
                (b + 16))
      else (sp\<lparr>base := b\<rparr>, 0))"
  by pat_completeness auto
termination
  by (relation "measure (\<lambda>(mem, sp, b). qend sp - b)") auto

declare scan_forward.simps [simp del]

text \<open>\<^verbatim>\<open>__builtin_ffs\<close> on the 16-bit map: one plus the index of the lowest set bit, 0 if none.\<close>

definition ffs :: "16 word \<Rightarrow> int" where
  "ffs w = (case filter (bit w) [0..<16] of [] \<Rightarrow> 0 | i # _ \<Rightarrow> int i + 1)"

definition scan_take :: "scan_t \<Rightarrow> nat option \<times> scan_t" where
  "scan_take sp =
     (let off = ffs (bmap sp) - 1
      in (Some (nat (int (base sp) + off)),
          sp\<lparr>bmap := bmap sp AND NOT (push_bit (nat off) 1)\<rparr>))"

definition scan_next :: "char list \<Rightarrow> scan_t \<Rightarrow> nat option \<times> scan_t" where
  "scan_next mem sp =
     (if bmap sp = 0 then
        (case scan_forward mem sp (base sp) of
           (sp', rc) \<Rightarrow> if rc \<noteq> 0 then (None, sp') else scan_take sp')
      else scan_take sp)"

subsection \<open>Progress of the scanner\<close>

text \<open>
  Every match that \<open>scan_next\<close> returns lies at or after \<open>nextpos\<close>, and the scanner
  left behind is strictly further on.  This is what makes the row state machine terminate.
\<close>

definition popcount :: "16 word \<Rightarrow> nat" where
  "popcount w = length (filter (bit w) [0..<16])"

definition lowbit :: "16 word \<Rightarrow> nat" where
  "lowbit w = nat (ffs w - 1)"

definition nextpos :: "scan_t \<Rightarrow> nat" where
  "nextpos sp = base sp + (if bmap sp = 0 then 16 else lowbit (bmap sp))"

lemma bits_nonempty: "(w :: 16 word) \<noteq> 0 \<Longrightarrow> filter (bit w) [0..<16] \<noteq> []"
proof
  assume w: "w \<noteq> 0" and e: "filter (bit w) [0..<16] = []"
  have "\<forall>n<16. \<not> bit w n" using e by (auto simp: filter_empty_conv)
  then have "w = 0" by (intro bit_eqI) (auto simp: bit_imp_le_length dest: bit_imp_le_length)
  with w show False by simp
qed

lemma filter_drop_first:
  "distinct xs \<Longrightarrow> filter P xs = y # ys \<Longrightarrow> filter (\<lambda>n. P n \<and> n \<noteq> y) xs = ys"
proof (induction xs)
  case Nil then show ?case by simp
next
  case (Cons x xs)
  show ?case
  proof (cases "P x")
    case True
    with Cons.prems have xy: "x = y" and ys: "filter P xs = ys" by auto
    have "y \<notin> set xs" using Cons.prems(1) xy by simp
    then have "filter (\<lambda>n. P n \<and> n \<noteq> y) xs = filter P xs"
      by (intro filter_cong) auto
    with True xy ys show ?thesis by simp
  next
    case False
    with Cons show ?thesis by simp
  qed
qed

lemma bit_clear: "bit ((w :: 16 word) AND NOT (push_bit k 1)) n \<longleftrightarrow> bit w n \<and> n \<noteq> k"
  by (auto simp: bit_simps dest: bit_imp_le_length)

lemma bits_clear:
  assumes "filter (bit (w :: 16 word)) [0..<16] = y # ys"
  shows "filter (bit (w AND NOT (push_bit y 1))) [0..<16] = ys"
proof -
  have "bit (w AND NOT (push_bit y 1)) = (\<lambda>n. bit w n \<and> n \<noteq> y)"
    by (rule ext) (rule bit_clear)
  then show ?thesis
    using filter_drop_first [of "[0..<16]" "bit w" y ys] assms by simp
qed

lemma bits_sorted: "sorted_wrt (<) (filter (bit (w :: 16 word)) [0..<16])"
  by (rule sorted_wrt_filter) (simp del: upt_Suc)

lemma bits_lt16: "n \<in> set (filter (bit (w :: 16 word)) [0..<16]) \<Longrightarrow> n < 16"
  by simp

lemma bit_fillbmap:
  "bit (fillbmap mem p plen mtch mlen) n \<longleftrightarrow>
     n < 16 \<and> n < nat \<bar>plen\<bar> \<and> mem ! (p + n) \<in> set (take (min 16 (nat \<bar>mlen\<bar>)) mtch)"
  by (auto simp: fillbmap_def bit_horner_sum_bit_word_iff simp del: upt_Suc)

lemma scan_take_props:
  assumes nz: "bmap sp \<noteq> 0" and st: "scan_take sp = (r, sp')"
  shows "r = Some (nextpos sp)" "nextpos sp < nextpos sp'" "popcount (bmap sp') < popcount (bmap sp)"
    "base sp' = base sp" "qend sp' = qend sp" "bit (bmap sp) (lowbit (bmap sp))" "lowbit (bmap sp) < 16"
proof -
  obtain y ys where f: "filter (bit (bmap sp)) [0..<16] = y # ys"
    using bits_nonempty [OF nz] by (cases "filter (bit (bmap sp)) [0..<16]") auto
  have lb: "lowbit (bmap sp) = y" by (simp add: lowbit_def ffs_def f)
  have "y \<in> set (filter (bit (bmap sp)) [0..<16])" by (simp add: f del: upt_Suc)
  then have y16: "y < 16" and bity: "bit (bmap sp) y" by simp_all
  have sp': "sp' = sp\<lparr>bmap := bmap sp AND NOT (push_bit y 1)\<rparr>" and r: "r = Some (base sp + y)"
    using st by (auto simp: scan_take_def ffs_def f Let_def)
  have f': "filter (bit (bmap sp')) [0..<16] = ys"
    using bits_clear [OF f] sp' by simp
  show "r = Some (nextpos sp)" using r nz lb by (simp add: nextpos_def)
  show "popcount (bmap sp') < popcount (bmap sp)" by (simp add: popcount_def f f' del: upt_Suc)
  show "base sp' = base sp" "qend sp' = qend sp" using sp' by simp_all
  show "bit (bmap sp) (lowbit (bmap sp))" "lowbit (bmap sp) < 16" using lb y16 bity by simp_all
  have "\<forall>z \<in> set ys. y < z" using bits_sorted [of "bmap sp"] f by simp
  show "nextpos sp < nextpos sp'"
  proof (cases "bmap sp' = 0")
    case True
    then show ?thesis using nz lb y16 sp' by (simp add: nextpos_def)
  next
    case False
    obtain z zs where fz: "ys = z # zs"
      using bits_nonempty [OF False] f' by (cases ys) auto
    have "lowbit (bmap sp') = z" by (simp add: lowbit_def ffs_def f' fz)
    moreover have "y < z" using \<open>\<forall>z \<in> set ys. y < z\<close> fz by simp
    ultimately show ?thesis using False nz lb sp' by (simp add: nextpos_def)
  qed
qed


lemma scan_forward_match: "bmap sp \<noteq> 0 \<Longrightarrow> scan_forward mem sp b = (sp\<lparr>base := b\<rparr>, 0)"
  by (subst scan_forward.simps) simp

lemma scan_forward_props:
  "scan_forward mem sp b = (sp', rc) \<Longrightarrow>
     qend sp' = qend sp \<and> match sp' = match sp \<and> matchlen sp' = matchlen sp \<and>
     (rc = 0 \<or> rc = -1) \<and>
     (rc = 0 \<longrightarrow> bmap sp' \<noteq> 0 \<and> b \<le> base sp' \<and>
        (bmap sp = 0 \<longrightarrow> b + 16 \<le> base sp' \<and> base sp' < qend sp \<and>
           bmap sp' = fillbmap mem (base sp') (int (qend sp) - int (base sp'))
                        (match sp) (matchlen sp)))"
proof (induction mem sp b rule: scan_forward.induct)
  case (1 mem sp b)
  show ?case
  proof (cases "bmap sp = 0")
    case False
    with "1.prems" show ?thesis by (auto simp: scan_forward.simps [of mem sp b])
  next
    case z: True
    show ?thesis
    proof (cases "qend sp \<le> b + 16")
      case True
      with z "1.prems" show ?thesis by (auto simp: scan_forward.simps [of mem sp b])
    next
      case False
      let ?sp1 = "sp\<lparr>bmap := fillbmap mem (b + 16) (int (qend sp) - int (b + 16))
                                (match sp) (matchlen sp)\<rparr>"
      have rec: "scan_forward mem ?sp1 (b + 16) = (sp', rc)"
        using z False "1.prems" by (simp add: scan_forward.simps [of mem sp b])
      note ih = "1.IH" [OF z False rec]
      show ?thesis
      proof (cases "bmap ?sp1 = 0")
        case True
        with ih show ?thesis by auto
      next
        case nz: False
        then have "sp' = ?sp1\<lparr>base := b + 16\<rparr>" "rc = 0"
          using rec scan_forward_match [of ?sp1 mem "b + 16"] by simp_all
        with nz False show ?thesis by auto
      qed
    qed
  qed
qed

lemma scan_next_Some_aux:
  assumes "scan_next mem sp = (Some m, sp2)"
  shows "qend sp2 = qend sp \<and> nextpos sp \<le> m \<and> m < nextpos sp2 \<and>
    (m < qend sp \<or> popcount (bmap sp2) < popcount (bmap sp))"
proof (cases "bmap sp = 0")
  case False
  then have st: "scan_take sp = (Some m, sp2)" using assms by (simp add: scan_next_def)
  note p = scan_take_props [OF False st]
  show ?thesis using p by auto
next
  case True
  obtain sp1 rc where sf: "scan_forward mem sp (base sp) = (sp1, rc)"
    by (cases "scan_forward mem sp (base sp)")
  note fp = scan_forward_props [OF sf]
  have rc: "rc = 0" and st: "scan_take sp1 = (Some m, sp2)"
    using assms True sf by (auto simp: scan_next_def split: if_splits)
  have nz: "bmap sp1 \<noteq> 0" using fp rc by simp
  note p = scan_take_props [OF nz st]
  have m: "m = nextpos sp1" using p by simp
  have "bit (fillbmap mem (base sp1) (int (qend sp) - int (base sp1)) (match sp) (matchlen sp))
          (lowbit (bmap sp1))"
    using p(6) fp rc True by simp
  then have "lowbit (bmap sp1) < nat \<bar>int (qend sp) - int (base sp1)\<bar>"
    by (simp add: bit_fillbmap)
  moreover have "base sp1 < qend sp" "base sp + 16 \<le> base sp1" using fp rc True by auto
  ultimately have "m < qend sp" "nextpos sp \<le> m"
    using m nz True by (auto simp: nextpos_def)
  then show ?thesis using p fp m by auto
qed

lemma scan_next_Some:
  assumes "scan_next mem sp = (Some m, sp2)"
  shows "qend sp2 = qend sp" "nextpos sp \<le> m" "m < nextpos sp2"
    "m < qend sp \<or> popcount (bmap sp2) < popcount (bmap sp)"
  using scan_next_Some_aux [OF assms] by simp_all

lemma scan_next_None: "scan_next mem sp = (None, sp2) \<Longrightarrow> qend sp2 = qend sp"
proof -
  assume a: "scan_next mem sp = (None, sp2)"
  have t: "\<And>s. fst (scan_take s) \<noteq> None" by (simp add: scan_take_def Let_def)
  obtain sp1 rc where sf: "scan_forward mem sp (base sp) = (sp1, rc)"
    by (cases "scan_forward mem sp (base sp)")
  show ?thesis
  proof (cases "bmap sp = 0")
    case False
    then have "scan_take sp = (None, sp2)" using a by (simp add: scan_next_def)
    with t [of sp] show ?thesis by simp
  next
    case True
    show ?thesis
    proof (cases "rc = 0")
      case True
      then have "scan_take sp1 = (None, sp2)" using a \<open>bmap sp = 0\<close> sf by (simp add: scan_next_def)
      with t [of sp1] show ?thesis by simp
    next
      case False
      then have "sp2 = sp1" using a \<open>bmap sp = 0\<close> sf by (simp add: scan_next_def)
      with scan_forward_props [OF sf] show ?thesis by simp
    qed
  qed
qed

lemma nextpos_scan_reset: "p \<le> nextpos (scan_reset mem sp p q)"
  by (simp add: nextpos_def scan_reset_def)

definition scan_measure :: "nat \<Rightarrow> scan_t \<Rightarrow> nat \<times> nat" where
  "scan_measure q sp = (max q (qend sp) - nextpos sp, popcount (bmap sp))"

lemma scan_measure_next:
  assumes "scan_next mem sp = (Some m, sp2)"
  shows "(scan_measure q sp2, scan_measure q sp) \<in> less_than <*lex*> less_than"
  using scan_next_Some [OF assms] by (auto simp: scan_measure_def)

lemma scan_measure_reset:
  assumes "scan_next mem sp = (Some m, sp2)" and "\<not> q \<le> m + 2"
  shows "(scan_measure q (scan_reset mem sp2 (m + 2) q), scan_measure q sp)
           \<in> less_than <*lex*> less_than"
proof -
  have "m + 2 \<le> nextpos (scan_reset mem sp2 (m + 2) q)" by (rule nextpos_scan_reset)
  moreover have "qend (scan_reset mem sp2 (m + 2) q) = q" by (simp add: scan_reset_def)
  ultimately show ?thesis
    using scan_next_Some [OF assms(1)] assms(2) by (auto simp: scan_measure_def)
qed

lemma scan_measure_trans:
  "(a, b) \<in> less_than <*lex*> less_than \<Longrightarrow> (b, c) \<in> less_than <*lex*> less_than \<Longrightarrow>
   (a :: nat \<times> nat, c) \<in> less_than <*lex*> less_than"
  by (cases a, cases b, cases c) auto


section \<open>The parser\<close>

record csv_state =
  linenum :: int
  charnum :: int
  rownum :: int
  fldnum :: int
  errnum :: errnum_t
  errmsg :: "string option"
  elinenum :: int
  echarnum :: int
  erownum :: int
  efldnum :: int

text \<open>
  The arrays \<^verbatim>\<open>fld\<close>, \<^verbatim>\<open>escptr\<close> and \<^verbatim>\<open>len\<close> are maps from the index to the element, with
  \<open>fldmax\<close> the number of allocated elements.  The counts \<open>fldmax\<close> and \<open>fldtop\<close> are C
  \<^verbatim>\<open>int\<close>s that start at 0 and only count up, and the counters of \<open>csv_state\<close> are
  \<^verbatim>\<open>int64_t\<close>: they are unbounded here, overflow of a counter is not modelled.
\<close>

record csv_parse_t =
  fldmax :: nat
  fldtop :: nat
  fld :: "nat \<Rightarrow> nat option"
  escptr :: "nat \<Rightarrow> nat option"
  len :: "nat \<Rightarrow> int"
  qte :: char
  esc :: char
  delim :: char
  nullstr :: "char list"     \<comment> \<open>the 20 bytes of the array\<close>
  nullstrsz :: int
  lastbuf :: "char list option"
  state :: csv_state
  scan_escaped_string :: "char list"
  scan :: scan_t

definition expand :: "(request \<Rightarrow> bool) \<Rightarrow> csv_parse_t \<Rightarrow> csv_parse_t \<times> int" where
  "expand alloc cp =
     (let max = fldmax cp + 64
      in if \<not> alloc (FieldArrays max) then (cp, -1)
         else (cp\<lparr>fldmax := max\<rparr>, 0))"

definition reterr ::
  "csv_parse_t \<Rightarrow> errnum_t \<Rightarrow> string \<Rightarrow> int \<Rightarrow> int \<Rightarrow> int \<Rightarrow> csv_parse_t \<times> int" where
  "reterr cp en msg cno nline nchar =
     (cp\<lparr>state := (state cp)\<lparr>errnum := en, errmsg := Some msg,
                              elinenum := linenum (state cp) + nline,
                              echarnum := charnum (state cp) + nchar,
                              erownum := rownum (state cp) + 1,
                              efldnum := cno\<rparr>\<rparr>, -1)"

section \<open>The row state machine: \<^verbatim>\<open>csv_line\<close>\<close>

text \<open>
  The labels of \<^verbatim>\<open>csv_line\<close> are the values of \<open>label\<close>; a \<open>frame\<close> holds what is live at
  a jump: \<^verbatim>\<open>cp\<close>, \<^verbatim>\<open>buf\<close>, \<^verbatim>\<open>q\<close>, \<^verbatim>\<open>ppp\<close>, \<^verbatim>\<open>cno\<close>, \<^verbatim>\<open>nline\<close>, \<^verbatim>\<open>quoted\<close> and \<^verbatim>\<open>escptr\<close>.
  The code of a label either jumps (\<open>Goto\<close>) or returns (\<open>Return\<close>); a return hands back the
  parser, the buffer as the call leaves it, and the \<^verbatim>\<open>int\<close> result.  \<open>Return None\<close> is the failed
  \<^verbatim>\<open>assert(cno < cp->fldmax)\<close>, or \<^verbatim>\<open>ppp - *fld\<close> on a null \<^verbatim>\<open>*fld\<close>.  The asserts
  \<^verbatim>\<open>assert(esc != qte)\<close> and \<^verbatim>\<open>assert(cur == '\n' || '\r' || cur == delim)\<close> cannot fail where
  they stand and are left out.
\<close>

datatype label = START_VAL | QUOTED_VAL | FINISH

type_synonym frame = "csv_parse_t \<times> char list \<times> nat \<times> nat \<times> nat \<times> int \<times> bool \<times> nat option"

type_synonym line_result = "(csv_parse_t \<times> char list \<times> int) option"

datatype step = Goto label frame | Return line_result

definition FINROW :: "csv_parse_t \<Rightarrow> nat \<Rightarrow> int \<Rightarrow> csv_parse_t \<times> int" where
  "FINROW cp ppp nline =
     (let rowsz = int ppp;
          nline = nline + 1
      in (cp\<lparr>state := (state cp)\<lparr>linenum := linenum (state cp) + nline,
                                  rownum := rownum (state cp) + 1,
                                  charnum := charnum (state cp) + rowsz\<rparr>\<rparr>, rowsz))"

definition ret :: "char list \<Rightarrow> csv_parse_t \<times> int \<Rightarrow> step" where
  "ret mem r = Return (Some (fst r, mem, snd r))"

definition at_START_VAL :: "(request \<Rightarrow> bool) \<Rightarrow> frame \<Rightarrow> step" where
  "at_START_VAL alloc = (\<lambda>(cp, buf, q, ppp, cno, nline, quoted, escp).
     (let (cp, rc) = (if fldmax cp \<le> cno then expand alloc cp else (cp, 0))
      in if rc \<noteq> 0
         then ret buf (reterr cp CSV_EOUTOFMEMORY ''out of memory'' (int cno) nline (int ppp))
         else if \<not> cno < fldmax cp then Return None
         else
           (let cp = cp\<lparr>fld := (fld cp)(cno := Some ppp)\<rparr>;
                escp = None;
                (r, sp) = scan_next buf (scan cp);
                cp = cp\<lparr>scan := sp\<rparr>
            in case r of
                 None \<Rightarrow> ret buf (cp, 0)
               | Some ppp \<Rightarrow>
                   (let quoted = (Some ppp = fld cp cno \<and> buf ! ppp = qte cp)
                    in if quoted
                       then Goto QUOTED_VAL (cp, buf, q, ppp, cno, nline, quoted, escp)
                       else Goto FINISH (cp, buf, q, ppp, cno, nline, quoted, escp)))))"

definition at_QUOTED_VAL :: "frame \<Rightarrow> step" where
  "at_QUOTED_VAL = (\<lambda>(cp, buf, q, ppp, cno, nline, quoted, escp).
     (let (r, sp) = scan_next buf (scan cp);
          cp = cp\<lparr>scan := sp\<rparr>
      in case r of
           None \<Rightarrow> ret buf (cp, 0)
         | Some ppp \<Rightarrow>
             (let cur = buf ! ppp
              in if cur = qte cp then
                   (let (r, sp) = scan_next buf (scan cp);
                        cp = cp\<lparr>scan := sp\<rparr>
                    in case r of
                         None \<Rightarrow> ret buf (cp, 0)
                       | Some xp \<Rightarrow>
                           if xp \<noteq> ppp + 1
                           then ret buf (reterr cp CSV_EQUOTE ''bad value after quote''
                                           (int cno) nline (int ppp))
                           else if esc cp = qte cp \<and> buf ! xp = qte cp
                           then Goto QUOTED_VAL (cp, buf, q, ppp, cno, nline, quoted,
                                  (case escp of None \<Rightarrow> Some ppp | Some e \<Rightarrow> Some e))
                           else Goto FINISH (cp, buf, q, xp, cno, nline, quoted, escp))
                 else if cur = esc cp then
                   (let escp = (case escp of None \<Rightarrow> Some ppp | Some e \<Rightarrow> Some e);
                        ppp = ppp + 2
                    in if q \<le> ppp then ret buf (cp, 0)
                       else Goto QUOTED_VAL
                              (cp\<lparr>scan := scan_reset buf (scan cp) ppp q\<rparr>,
                               buf, q, ppp, cno, nline, quoted, escp))
                 else Goto QUOTED_VAL (cp, buf, q, ppp, cno,
                        nline + (if cur = LF then 1 else 0), quoted, escp))))"

definition at_FINISH :: "frame \<Rightarrow> step" where
  "at_FINISH = (\<lambda>(cp, buf, q, ppp, cno, nline, quoted, escp).
     (case fld cp cno of
        None \<Rightarrow> Return None
      | Some start \<Rightarrow>
          (let cp = cp\<lparr>len := (len cp)(cno := int ppp - int start)\<rparr>;
               cp = cp\<lparr>escptr := (escptr cp)(cno := escp)\<rparr>;
               cp = (if quoted
                     then cp\<lparr>fld := (fld cp)(cno := Some (start + 1)),
                             len := (len cp)(cno := len cp cno - 2)\<rparr>
                     else cp);
               cno = cno + 1;
               cur = buf ! ppp;
               ppp = ppp + 1
           in if cur = delim cp
              then Goto START_VAL (cp, buf, q, ppp, cno, nline, quoted, escp)
              else
                (let cp = cp\<lparr>fldtop := cno\<rparr>
                 in if cur = LF then ret buf (FINROW cp ppp nline)
                    else if cur = CR \<and> ppp < q \<and> buf ! ppp = LF
                    then ret buf (FINROW cp (ppp + 1) nline)
                    else ret buf (reterr cp CSV_ECRLF ''CRLF expected''
                                    (int cno) nline (int ppp))))))"

definition at_label :: "(request \<Rightarrow> bool) \<Rightarrow> label \<Rightarrow> frame \<Rightarrow> step" where
  "at_label alloc l f =
     (case l of START_VAL \<Rightarrow> at_START_VAL alloc f
      | QUOTED_VAL \<Rightarrow> at_QUOTED_VAL f
      | FINISH \<Rightarrow> at_FINISH f)"

definition frame_measure :: "label \<times> frame \<Rightarrow> (nat \<times> nat) \<times> nat" where
  "frame_measure = (\<lambda>(l, cp, buf, q, ppp, cno, nline, quoted, escp).
     (scan_measure q (scan cp), case l of FINISH \<Rightarrow> Suc 0 | _ \<Rightarrow> 0))"

definition frame_less :: "((label \<times> frame) \<times> (label \<times> frame)) set" where
  "frame_less = inv_image ((less_than <*lex*> less_than) <*lex*> less_than) frame_measure"

lemma scan_expand: "expand alloc cp = (cp', rc) \<Longrightarrow> scan cp' = scan cp"
  by (auto simp: expand_def Let_def split: if_splits)

lemma at_START_VAL_less:
  assumes "at_START_VAL alloc f = Goto l' f'"
  shows "((l', f'), (START_VAL, f)) \<in> frame_less"
proof -
  obtain cp buf q ppp cno nline quoted escp where f: "f = (cp, buf, q, ppp, cno, nline, quoted, escp)"
    by (cases f) auto
  obtain cp1 rc where e: "(if fldmax cp \<le> cno then expand alloc cp else (cp, 0)) = (cp1, rc)"
    by (cases "if fldmax cp \<le> cno then expand alloc cp else (cp, 0)") auto
  have s1: "scan cp1 = scan cp" using e scan_expand [of alloc cp cp1 rc] by (auto split: if_splits)
  obtain r sp where n: "scan_next buf (scan cp) = (r, sp)" by (cases "scan_next buf (scan cp)") auto
  from assms obtain m where r: "r = Some m" and f': "f' = (cp1\<lparr>fld := (fld cp1)(cno := Some ppp), scan := sp\<rparr>, buf, q, m, cno, nline,
       (Some m = Some ppp \<and> buf ! m = qte cp1), None)"
    unfolding f at_START_VAL_def
    by (auto simp: e s1 n ret_def Let_def split: if_splits option.splits)
  from scan_measure_next [OF n [unfolded r], of q] show ?thesis
    by (simp add: frame_less_def frame_measure_def f f')
qed


lemma at_QUOTED_VAL_less:
  assumes "at_QUOTED_VAL f = Goto l' f'"
  shows "((l', f'), (QUOTED_VAL, f)) \<in> frame_less"
proof -
  obtain cp buf q ppp cno nline quoted escp where f: "f = (cp, buf, q, ppp, cno, nline, quoted, escp)"
    by (cases f) auto
  obtain r sp where n: "scan_next buf (scan cp) = (r, sp)" by (cases "scan_next buf (scan cp)") auto
  obtain r2 sp2 where n2: "scan_next buf sp = (r2, sp2)" by (cases "scan_next buf sp") auto
  from assms obtain m where r: "r = Some m"
    unfolding f at_QUOTED_VAL_def by (cases r) (auto simp: n ret_def)
  note a = scan_measure_next [OF n [unfolded r], of q]
  obtain cp' buf' q' ppp' cno' nline' quoted' escp' where
    f': "f' = (cp', buf', q', ppp', cno', nline', quoted', escp')"
    by (cases f') auto
  have g: "at_QUOTED_VAL (cp, buf, q, ppp, cno, nline, quoted, escp) =
           Goto l' (cp', buf', q', ppp', cno', nline', quoted', escp')"
    using assms f f' by simp
  consider (qq) "buf ! m = qte cp" | (ee) "esc cp \<noteq> qte cp" "buf ! m = esc cp"
    | (oo) "buf ! m \<noteq> qte cp" "buf ! m \<noteq> esc cp" by metis
  then have "q' = q \<and> l' \<noteq> FINISH \<or> q' = q \<and> l' = FINISH"
    using g unfolding at_QUOTED_VAL_def
    by cases (auto simp: n n2 r ret_def Let_def split: if_splits option.splits)
  then have q': "q' = q" by auto
  consider (qq) "buf ! m = qte cp" | (ee) "esc cp \<noteq> qte cp" "buf ! m = esc cp"
    | (oo) "buf ! m \<noteq> qte cp" "buf ! m \<noteq> esc cp" by metis
  then have "(scan_measure q (scan cp'), scan_measure q (scan cp)) \<in> less_than <*lex*> less_than"
  proof cases
    case qq
    from g obtain xp where r2: "r2 = Some xp" and c: "scan cp' = sp2"
      unfolding at_QUOTED_VAL_def
      by (cases r2) (auto simp: n n2 r qq ret_def Let_def split: if_splits)
    from scan_measure_trans [OF scan_measure_next [OF n2 [unfolded r2], of q] a] c
    show ?thesis by simp
  next
    case ee
    from g have "\<not> q \<le> m + 2" and c: "scan cp' = scan_reset buf sp (m + 2) q"
      unfolding at_QUOTED_VAL_def
      by (auto simp: n r ee ret_def Let_def split: if_splits)
    from scan_measure_reset [OF n [unfolded r] this(1)] c show ?thesis by simp
  next
    case oo
    from g have "scan cp' = sp"
      unfolding at_QUOTED_VAL_def
      by (auto simp: n r oo ret_def Let_def split: if_splits)
    with a show ?thesis by simp
  qed
  then show ?thesis
    by (simp add: frame_less_def frame_measure_def f f' q')
qed

lemma at_FINISH_less:
  assumes "at_FINISH f = Goto l' f'"
  shows "((l', f'), (FINISH, f)) \<in> frame_less"
proof -
  obtain cp buf q ppp cno nline quoted escp where f: "f = (cp, buf, q, ppp, cno, nline, quoted, escp)"
    by (cases f) auto
  obtain cp' buf' q' ppp' cno' nline' quoted' escp' where
    f': "f' = (cp', buf', q', ppp', cno', nline', quoted', escp')"
    by (cases f') auto
  have g: "at_FINISH (cp, buf, q, ppp, cno, nline, quoted, escp) =
           Goto l' (cp', buf', q', ppp', cno', nline', quoted', escp')"
    using assms f f' by simp
  have "l' = START_VAL \<and> q' = q \<and> scan cp' = scan cp"
    using g unfolding at_FINISH_def
    by (cases "fld cp cno"; cases quoted) (auto simp: ret_def Let_def split: if_splits)
  then show ?thesis
    by (simp add: frame_less_def frame_measure_def f f')
qed

lemma at_label_less: "at_label alloc l f = Goto l' f' \<Longrightarrow> ((l', f'), (l, f)) \<in> frame_less"
  by (cases l) (simp_all add: at_label_def at_START_VAL_less at_QUOTED_VAL_less at_FINISH_less)

lemma wf_frame_less: "wf frame_less"
  unfolding frame_less_def by (intro wf_inv_image wf_lex_prod wf_less_than)

function csv_line_from :: "(request \<Rightarrow> bool) \<Rightarrow> label \<Rightarrow> frame \<Rightarrow> line_result" where
  "csv_line_from alloc l f =
     (case at_label alloc l f of
        Return r \<Rightarrow> r
      | Goto l' f' \<Rightarrow> csv_line_from alloc l' f')"
  by pat_completeness auto
termination
proof (relation "inv_image frame_less (\<lambda>(alloc, l, f). (l, f))", goal_cases)
  case 1
  show ?case by (intro wf_inv_image wf_frame_less)
next
  case (2 alloc l f l' f')
  then show ?case by (simp add: at_label_less)
qed

declare csv_line_from.simps [simp del]

definition csv_line ::
  "(request \<Rightarrow> bool) \<Rightarrow> csv_parse_t \<Rightarrow> char list option \<Rightarrow> int \<Rightarrow>
   (csv_parse_t \<times> char list option \<times> int) option" where
  "csv_line alloc cp buf bufsz =
     (case buf of
        None \<Rightarrow> Some (if bufsz = 0 then (cp, None, 0)
                      else (fst (reterr cp CSV_EPARAM ''bad bufsz'' 0 0 0), None, -1))
      | Some mem \<Rightarrow>
          if bufsz \<le> 0
          then Some (if bufsz = 0 then (cp, buf, 0)
                     else (fst (reterr cp CSV_EPARAM ''bad bufsz'' 0 0 0), buf, -1))
          else if int (length mem) < bufsz then None
          else
            (let q = nat bufsz;
                 cp = cp\<lparr>scan := scan_reset mem (scan cp) 0 q\<rparr>
             in map_option (\<lambda>(cp, mem, rc). (cp, Some mem, rc))
                  (csv_line_from alloc START_VAL (cp, mem, q, 0, 0, 0, False, None))))"

section \<open>Finalization: \<^verbatim>\<open>touchup\<close>\<close>

text \<open>
  \<^verbatim>\<open>_mm_cmpestri(a, la, reg, lb, _SIDD_CMP_EQUAL_ANY)\<close> on the 16 bytes loaded at \<open>p\<close>: the
  index of the first valid lane that equals a valid lane of \<open>a\<close>, 16 if there is none.
\<close>

definition cmpestri :: "char list \<Rightarrow> int \<Rightarrow> char list \<Rightarrow> nat \<Rightarrow> int \<Rightarrow> nat" where
  "cmpestri a la mem p lb =
     (case filter (\<lambda>i. i < min 16 (nat \<bar>lb\<bar>) \<and>
                        mem ! (p + i) \<in> set (take (min 16 (nat \<bar>la\<bar>)) a)) [0..<16] of
        [] \<Rightarrow> 16
      | i # _ \<Rightarrow> i)"

text \<open>\<^verbatim>\<open>for ( ; m; m--) *s++ = *p++;\<close> returns the memory; \<open>s\<close> and \<open>p\<close> end \<open>m\<close> further.\<close>

fun copy_head :: "char list \<Rightarrow> nat \<Rightarrow> nat \<Rightarrow> nat \<Rightarrow> char list" where
  "copy_head mem s p 0 = mem"
| "copy_head mem s p (Suc m) = copy_head (mem[s := mem ! p]) (s + 1) (p + 1) m"

text \<open>
  \<^verbatim>\<open>while (*p) *s++ = *p++;\<close> returns the memory, \<open>s\<close> and \<open>p\<close>; \<open>None\<close> when it runs off
  the buffer.
\<close>

function copy_tail :: "char list \<Rightarrow> nat \<Rightarrow> nat \<Rightarrow> (char list \<times> nat \<times> nat) option" where
  "copy_tail mem s p =
     (if length mem \<le> p \<or> length mem \<le> s then None
      else if mem ! p = NUL then Some (mem, s, p)
      else copy_tail (mem[s := mem ! p]) (s + 1) (p + 1))"
  by pat_completeness auto
termination
  by (relation "measure (\<lambda>(mem, s, p). length mem - p)") auto

declare copy_tail.simps [simp del]

text \<open>\<^verbatim>\<open>_mm_storeu_si128((__m128i*)s, reg)\<close> with \<open>reg\<close> the 16 bytes loaded at \<open>p\<close> before.\<close>

definition store16 :: "char list \<Rightarrow> nat \<Rightarrow> char list \<Rightarrow> char list" where
  "store16 mem s reg = take s mem @ reg @ drop (s + 16) mem"

text \<open>
  The loop \<^verbatim>\<open>while (p < q)\<close> of \<^verbatim>\<open>touchup\<close>; it returns the memory and \<open>s\<close>.  \<open>None\<close> is a
  failed \<^verbatim>\<open>assert(p == q)\<close> or \<^verbatim>\<open>assert(*p == esc)\<close>.
\<close>

function squeeze :: "csv_parse_t \<Rightarrow> char list \<Rightarrow> nat \<Rightarrow> nat \<Rightarrow> nat \<Rightarrow> (char list \<times> nat) option" where
  "squeeze cp mem s p q =
     (if \<not> p < q then Some (mem, s)
      else
        (let m = cmpestri (scan_escaped_string cp) 2 mem p (int q - int p)
         in if m = 16 then
              (if p + 16 < q
               then squeeze cp (store16 mem s (take 16 (drop p mem))) (s + 16) (p + 16) q
               else (case copy_tail mem s p of
                       None \<Rightarrow> None
                     | Some (mem, s, p) \<Rightarrow> if p = q then Some (mem, s) else None))
            else
              (let mem = copy_head mem s p m;
                   s = s + m;
                   p = p + m
               in if mem ! p \<noteq> esc cp then None
                  else squeeze cp (mem[s := mem ! (p + 1)]) (s + 1) (p + 2) q)))"
  by pat_completeness auto
termination
  by (relation "measure (\<lambda>(cp, mem, s, p, q). q - p)") auto

declare squeeze.simps [simp del]

text \<open>The body of the loop over the fields, for field \<open>i\<close>.\<close>

definition touchup_field :: "csv_parse_t \<Rightarrow> char list \<Rightarrow> nat \<Rightarrow> (csv_parse_t \<times> char list) option" where
  "touchup_field cp mem i =
     (case fld cp i of
        None \<Rightarrow> None
      | Some p \<Rightarrow>
          if int p + len cp i < 0 \<or> int (length mem) \<le> int p + len cp i then None
          else
            (let q = nat (int p + len cp i);
                 mem = mem[q := NUL]
             in case escptr cp i of
                  None \<Rightarrow>
                    Some (if int q - int p = nullstrsz cp \<and>
                             take (q - p) (drop p mem) = take (q - p) (nullstr cp)
                          then cp\<lparr>fld := (fld cp)(i := None)\<rparr>
                          else cp, mem)
                | Some e \<Rightarrow>
                    if \<not> (p \<le> e \<and> e < q) then None
                    else if mem ! e \<noteq> esc cp then None
                    else
                      (case squeeze cp (mem[e := mem ! (e + 1)]) (e + 1) (e + 2) q of
                         None \<Rightarrow> None
                       | Some (mem, s) \<Rightarrow> Some (cp, mem[s := NUL]))))"

definition touchup :: "csv_parse_t \<Rightarrow> char list \<Rightarrow> (csv_parse_t \<times> char list) option" where
  "touchup cp mem =
     fold (\<lambda>i r. case r of None \<Rightarrow> None | Some (cp, mem) \<Rightarrow> touchup_field cp mem i)
       [0..<fldtop cp] (Some (cp, mem))"

section \<open>\<^verbatim>\<open>csv_feed\<close>, \<^verbatim>\<open>csv_feed_last\<close> and \<^verbatim>\<open>csv_open\<close>\<close>

text \<open>
  A feed returns the parser, the caller's buffer as the call leaves it, the \<^verbatim>\<open>int\<close> result,
  \<^verbatim>\<open>*ret_field\<close> (the array \<^verbatim>\<open>cp->fld\<close>, or null) and \<^verbatim>\<open>*ret_nfield\<close>.
\<close>

type_synonym feed_result =
  "csv_parse_t \<times> char list option \<times> int \<times> (nat \<Rightarrow> nat option) option \<times> int"

definition csv_feed ::
  "(request \<Rightarrow> bool) \<Rightarrow> csv_parse_t \<Rightarrow> char list option \<Rightarrow> int \<Rightarrow> feed_result option" where
  "csv_feed alloc cp buf bufsz =
     (case csv_line alloc cp buf bufsz of
        None \<Rightarrow> None
      | Some (cp, buf, rowsz) \<Rightarrow>
          if rowsz \<le> 0 then Some (cp, buf, rowsz, None, 0)
          else
            (case buf of
               None \<Rightarrow> None
             | Some mem \<Rightarrow>
                 (case touchup cp mem of
                    None \<Rightarrow> None
                  | Some (cp, mem) \<Rightarrow>
                      Some (cp, Some mem, rowsz, Some (fld cp), int (fldtop cp)))))"

text \<open>
  \<^verbatim>\<open>csv_feed_last\<close>: when it appends the LF, the fields point into \<^verbatim>\<open>cp->lastbuf\<close> and the
  caller's buffer is only read.  \<^verbatim>\<open>bufsz\<close> is a 32-bit \<^verbatim>\<open>int\<close>: \<^verbatim>\<open>bufsz + 2\<close> and \<^verbatim>\<open>bufsz++\<close> are
  computed in \<^verbatim>\<open>int\<close>, and a sum above \<open>INT_MAX\<close> is a signed overflow, which is undefined
  (\<open>None\<close>).
\<close>

definition INT_MAX :: int where
  "INT_MAX = 2147483647"

definition csv_feed_last ::
  "(request \<Rightarrow> bool) \<Rightarrow> csv_parse_t \<Rightarrow> char list option \<Rightarrow> int \<Rightarrow> feed_result option" where
  "csv_feed_last alloc cp buf bufsz =
     (if bufsz < 0 then Some (fst (reterr cp CSV_EPARAM ''bad bufsz'' 0 0 0), buf, -1, None, 0)
      else if bufsz = 0 then Some (cp, buf, 0, None, 0)
      else
        (case buf of
           None \<Rightarrow> None
         | Some mem \<Rightarrow>
             if int (length mem) < bufsz then None
             else if mem ! (nat bufsz - 1) \<noteq> LF then
               (if INT_MAX < bufsz + 2 then None
                else if \<not> alloc (Bytes (bufsz + 2))
                then Some (fst (reterr (cp\<lparr>lastbuf := None\<rparr>) CSV_EOUTOFMEMORY ''out of memory''
                                  0 0 0), buf, -1, None, 0)
                else
                  (let copy = take (nat bufsz) mem @ [LF, NUL]
                   in case csv_feed alloc (cp\<lparr>lastbuf := Some copy\<rparr>) (Some copy) (bufsz + 1) of
                        None \<Rightarrow> None
                      | Some (cp, copy, n, field, nfield) \<Rightarrow>
                          Some (cp\<lparr>lastbuf := copy\<rparr>, buf, if 0 < n then n - 1 else n,
                                field, nfield)))
             else csv_feed alloc cp buf bufsz))"

text \<open>The row that a feed hands out, read as C strings from the memory the fields point into.\<close>

definition row_of :: "char list \<Rightarrow> (nat \<Rightarrow> nat option) \<Rightarrow> int \<Rightarrow> string option list" where
  "row_of mem field nfield = map (\<lambda>i. map_option (cstr mem) (field i)) [0..<nat nfield]"

text \<open>
  \<^verbatim>\<open>strncpy(dst, src, n)\<close> as the \<open>n\<close> bytes of \<open>dst\<close>, and \<^verbatim>\<open>strlen\<close>.  The source is the list of
  the bytes at the pointer; the string ends before its first NUL, or with the list.
\<close>

definition strncpy :: "nat \<Rightarrow> char list \<Rightarrow> char list" where
  "strncpy n src = take n (takeWhile (\<lambda>c. c \<noteq> NUL) src @ replicate n NUL)"

definition strlen :: "char list \<Rightarrow> nat" where
  "strlen s = length (takeWhile (\<lambda>c. c \<noteq> NUL) s)"

definition csv_open ::
  "(request \<Rightarrow> bool) \<Rightarrow> int \<Rightarrow> int \<Rightarrow> int \<Rightarrow> char list option \<Rightarrow> csv_parse_t option" where
  "csv_open alloc qte0 esc0 delim0 nullstr0 =
     (let qte1 = (if qte0 \<noteq> 0 then qte0 else 34);
          esc1 = (if esc0 \<noteq> 0 then esc0 else qte1);
          delim1 = (if delim0 \<noteq> 0 then delim0 else 44);
          nullstr1 = (case nullstr0 of None \<Rightarrow> [] | Some s \<Rightarrow> s)
      in if \<not> alloc Parser then None
         else
           (let ns = (strncpy 20 nullstr1)[19 := NUL]
            in Some \<lparr>fldmax = 0, fldtop = 0, fld = (\<lambda>_. None), escptr = (\<lambda>_. None),
                     len = (\<lambda>_. 0),
                     qte = char_of qte1, esc = char_of esc1, delim = char_of delim1,
                     nullstr = ns, nullstrsz = int (strlen ns), lastbuf = None,
                     state = \<lparr>linenum = 0, charnum = 0, rownum = 0, fldnum = 0,
                              errnum = CSV_NOERR, errmsg = None, elinenum = 0, echarnum = 0,
                              erownum = 0, efldnum = 0\<rparr>,
                     scan_escaped_string = [char_of qte1, char_of esc1] @ replicate 14 NUL,
                     scan = \<lparr>bmap = 0, base = 0, qend = 0,
                             match = [char_of qte1, char_of esc1, char_of delim1, CR, LF]
                                     @ replicate 11 NUL,
                             matchlen = 5\<rparr>\<rparr>))"

section \<open>The streaming driver: \<^verbatim>\<open>csv_scan\<close>\<close>

text \<open>
  The callbacks own the handle, so they take it and return it.  \<open>on_bufempty h n\<close> is given
  the room \<open>n\<close> after \<^verbatim>\<open>q\<close> and returns \<^verbatim>\<open>nb\<close> and the bytes it wrote there; \<open>on_row\<close> is
  given the row number and the fields of the row as C strings (\<open>None\<close> for a null field);
  \<open>on_error\<close> is given the error type, the message and the parser.
\<close>

record 'h callbacks =
  on_bufempty :: "'h \<Rightarrow> int \<Rightarrow> (int \<times> char list) \<times> 'h"
  on_row :: "'h \<Rightarrow> int \<Rightarrow> string option list \<Rightarrow> int \<times> 'h"
  on_error :: "'h \<Rightarrow> errnum_t \<Rightarrow> string option \<Rightarrow> csv_parse_t option \<Rightarrow> 'h"

text \<open>\<^verbatim>\<open>%d\<close> of \<^verbatim>\<open>sprintf\<close>, for the sizes of the buffer (which are positive).\<close>

fun decimal :: "nat \<Rightarrow> string" where
  "decimal n = (if n < 10 then [char_of (48 + n)]
                else decimal (n div 10) @ [char_of (48 + n mod 10)])"

declare decimal.simps [simp del]

text \<open>
  The state of the loops: the bytes of \<^verbatim>\<open>buf\<close> up to \<^verbatim>\<open>q\<close> that have been written (what lies
  beyond is uninitialised and not represented), \<^verbatim>\<open>p\<close> and \<^verbatim>\<open>q\<close> as offsets into \<^verbatim>\<open>buf\<close>,
  the parser and the handle.  The inner loop ends with \<open>Inl h\<close> at \<^verbatim>\<open>goto bail\<close>.
\<close>

function feed_rows ::
  "(request \<Rightarrow> bool) \<Rightarrow> 'h callbacks \<Rightarrow> csv_parse_t \<Rightarrow> char list \<Rightarrow> nat \<Rightarrow> nat \<Rightarrow> 'h \<Rightarrow>
   ('h + csv_parse_t \<times> char list \<times> nat \<times> 'h) option" where
  "feed_rows alloc cb cp mem p q h =
     (if \<not> p < q then Some (Inr (cp, mem, p, h))
      else
        (case csv_feed alloc cp (Some (drop p mem)) (int q - int p) of
           None \<Rightarrow> None
         | Some (cp, buf, nb, field, nfield) \<Rightarrow>
             (let mem = take p mem @ (case buf of None \<Rightarrow> [] | Some m \<Rightarrow> m)
              in if nb \<le> 0 then
                   (if nb = 0 then Some (Inr (cp, mem, p, h))
                    else Some (Inl (on_error cb h CSV_NOERR None (Some cp))))
                 else
                   (case on_row cb h (rownum (state cp))
                           (row_of (drop p mem) (case field of None \<Rightarrow> (\<lambda>_. None) | Some f \<Rightarrow> f)
                              nfield) of
                      (stop, h) \<Rightarrow>
                        if stop \<noteq> 0 then Some (Inl h)
                        else feed_rows alloc cb cp mem (p + nat nb) q h))))"
  by pat_completeness auto
termination
  by (relation "measure (\<lambda>(alloc, cb, cp, mem, p, q, h). q - p)") auto

declare feed_rows.simps [simp del]

text \<open>What follows the loop \<^verbatim>\<open>while (!eof)\<close>: the last row, and the check for extra data.\<close>

definition scan_last ::
  "(request \<Rightarrow> bool) \<Rightarrow> 'h callbacks \<Rightarrow> csv_parse_t \<Rightarrow> char list \<Rightarrow> nat \<Rightarrow> nat \<Rightarrow> 'h \<Rightarrow>
   (int \<times> 'h) option" where
  "scan_last alloc cb cp mem p q h =
     (let r =
        (if p < q then
           (case csv_feed_last alloc cp (Some (drop p mem)) (int q - int p) of
              None \<Rightarrow> None
            | Some (cp, buf, nb, field, nfield) \<Rightarrow>
                if nb < 0 then Some (Inl (on_error cb h CSV_NOERR None (Some cp)))
                else
                  (let fmem = (if drop p mem ! (q - p - 1) \<noteq> LF
                               then (case lastbuf cp of None \<Rightarrow> [] | Some m \<Rightarrow> m)
                               else (case buf of None \<Rightarrow> [] | Some m \<Rightarrow> m))
                   in case on_row cb h (rownum (state cp))
                             (row_of fmem (case field of None \<Rightarrow> (\<lambda>_. None) | Some f \<Rightarrow> f)
                                nfield) of
                        (stop, h) \<Rightarrow>
                          if stop \<noteq> 0 then Some (Inl h) else Some (Inr (p + nat nb, h))))
         else Some (Inr (p, h)))
      in case r of
           None \<Rightarrow> None
         | Some (Inl h) \<Rightarrow> Some (-1, h)
         | Some (Inr (p, h)) \<Rightarrow>
             if p \<noteq> q
             then Some (-1, on_error cb h CSV_EEXTRAINPUT (Some ''extra data after last row'') None)
             else Some (0, h))"

text \<open>
  One round of \<^verbatim>\<open>while (!eof)\<close> and what follows it.  The loop runs for as long as the source
  supplies bytes, so the function is partial: \<open>None\<close> is also a run that never returns.
\<close>

partial_function (option) scan_loop ::
  "(request \<Rightarrow> bool) \<Rightarrow> 'h callbacks \<Rightarrow> csv_parse_t \<Rightarrow> char list \<Rightarrow> nat \<Rightarrow> nat \<Rightarrow> int \<Rightarrow> 'h \<Rightarrow>
   (int \<times> 'h) option" where
  "scan_loop alloc cb cp mem p q bufsz h =
     (let (mem, p, q) = (if p \<noteq> 0 then (take (q - p) (drop p mem), 0, q - p) else (mem, p, q));
          newsz = bufsz + 1024 * 1024 * 10;
          grow = (int q - int p = bufsz)
      in if grow \<and> \<not> alloc (Bytes newsz)
         then Some (-1, on_error cb h CSV_EOUTOFMEMORY
                          (Some (''cannot expand buffer beyond '' @ decimal (nat bufsz) @ '' bytes''))
                          None)
         else
           (let bufsz = (if grow then newsz else bufsz)
            in case on_bufempty cb h (bufsz - (int q - int p)) of
                 ((nb, bytes), h) \<Rightarrow>
                   if nb < 0 then Some (-1, h)
                   else if bufsz - (int q - int p) < nb \<or> int (length bytes) < nb then None
                   else
                     (let eof = (nb = 0);
                          mem = take q mem @ take (nat nb) bytes;
                          q = q + nat nb
                      in case feed_rows alloc cb cp mem p q h of
                           None \<Rightarrow> None
                         | Some (Inl h) \<Rightarrow> Some (-1, h)
                         | Some (Inr (cp, mem, p, h)) \<Rightarrow>
                             if eof then scan_last alloc cb cp mem p q h
                             else scan_loop alloc cb cp mem p q bufsz h)))"

declare scan_loop.simps [code]

definition csv_scan ::
  "(request \<Rightarrow> bool) \<Rightarrow> 'h \<Rightarrow> int \<Rightarrow> int \<Rightarrow> int \<Rightarrow> char list option \<Rightarrow> 'h callbacks \<Rightarrow> (int \<times> 'h) option" where
  "csv_scan alloc handle qte0 esc0 delim0 nullstr0 cb =
     (let bufsz = 1024 * 1024
      in if \<not> alloc (Bytes bufsz)
         then Some (-1, on_error cb handle CSV_EOUTOFMEMORY (Some ''out of memory'') None)
         else
           (case csv_open alloc qte0 esc0 delim0 nullstr0 of
              None \<Rightarrow> Some (-1, on_error cb handle CSV_EOUTOFMEMORY (Some ''csv_open failed'') None)
            | Some cp \<Rightarrow> scan_loop alloc cb cp [] 0 0 bufsz handle))"

text \<open>
  A source that supplies a list of chunks, one chunk (or as much of it as there is room for)
  per call, and then reports the end; a sink that collects the rows and the errors.
\<close>

record collect =
  chunks :: "char list list"
  rows :: "string option list list"
  errors :: "(errnum_t \<times> string option \<times> errnum_t option) list"

definition chunk_callbacks :: "collect callbacks" where
  "chunk_callbacks =
     \<lparr>on_bufempty = (\<lambda>h n.
          case chunks h of
            [] \<Rightarrow> ((0, []), h)
          | c # cs \<Rightarrow>
              if int (length c) \<le> n then ((int (length c), c), h\<lparr>chunks := cs\<rparr>)
              else ((n, take (nat n) c), h\<lparr>chunks := drop (nat n) c # cs\<rparr>)),
      on_row = (\<lambda>h n r. (0, h\<lparr>rows := rows h @ [r]\<rparr>)),
      on_error = (\<lambda>h e m cp.
          h\<lparr>errors := errors h @ [(e, m, map_option (\<lambda>cp. errnum (state cp)) cp)]\<rparr>)\<rparr>"

definition scan_chunks :: "char list list \<Rightarrow> (int \<times> collect) option" where
  "scan_chunks cs =
     csv_scan (\<lambda>_. True) \<lparr>chunks = cs, rows = [], errors = []\<rparr> 0 0 0 None chunk_callbacks"

section \<open>How a call of \<^verbatim>\<open>csv_line\<close> ends\<close>

lemma csv_line_from_rule:
  assumes r: "csv_line_from alloc l f = Some r"
    and i: "I l f"
    and step: "\<And>l f l' f'. I l f \<Longrightarrow> at_label alloc l f = Goto l' f' \<Longrightarrow> I l' f'"
    and fin: "\<And>l f r. I l f \<Longrightarrow> at_label alloc l f = Return (Some r) \<Longrightarrow> Q r"
  shows "Q r"
  using r i
proof (induction "(l, f)" arbitrary: l f rule: wf_induct_rule [OF wf_frame_less])
  case (1 l f)
  show ?case
  proof (cases "at_label alloc l f")
    case (Goto l' f')
    then have "csv_line_from alloc l' f' = Some r"
      using "1.prems"(1) by (simp add: csv_line_from.simps [of alloc l f])
    moreover have "I l' f'" using step [OF "1.prems"(2) Goto] .
    ultimately show ?thesis using "1.hyps" [OF at_label_less [OF Goto]] by simp
  next
    case (Return x)
    then have "x = Some r"
      using "1.prems"(1) by (simp add: csv_line_from.simps [of alloc l f])
    with Return fin [OF "1.prems"(2)] show ?thesis by simp
  qed
qed

text \<open>What a jump and a return leave of the frame.\<close>

lemma at_START_VAL_Goto:
  assumes "at_START_VAL alloc (cp, buf, q, ppp, cno, nline, quoted, escp) =
           Goto l' (cp', buf', q', ppp', cno', nline', quoted', escp')"
  shows "buf' = buf \<and> q' = q \<and> cno' = cno \<and> nline' = nline \<and> state cp' = state cp \<and>
         l' \<noteq> START_VAL \<and> cno < fldmax cp' \<and> fld cp' cno = Some ppp"
proof -
  obtain cp1 rc where e: "(if fldmax cp \<le> cno then expand alloc cp else (cp, 0)) = (cp1, rc)"
    by (cases "if fldmax cp \<le> cno then expand alloc cp else (cp, 0)") auto
  have s1: "state cp1 = state cp"
    using e by (auto simp: expand_def Let_def split: if_splits)
  obtain r sp where n: "scan_next buf (scan cp1) = (r, sp)"
    by (cases "scan_next buf (scan cp1)") auto
  show ?thesis
    using assms s1 unfolding at_START_VAL_def
    by (cases r) (auto simp: e n ret_def Let_def split: if_splits)
qed

lemma at_START_VAL_Return:
  assumes "at_START_VAL alloc (cp, buf, q, ppp, cno, nline, quoted, escp) =
           Return (Some (cp', buf', rc))"
  shows "buf' = buf \<and>
         (rc = 0 \<and> state cp' = state cp \<or>
          rc = -1 \<and> state cp' = (state cp)\<lparr>errnum := CSV_EOUTOFMEMORY,
              errmsg := Some ''out of memory'', elinenum := linenum (state cp) + nline,
              echarnum := charnum (state cp) + int ppp, erownum := rownum (state cp) + 1,
              efldnum := int cno\<rparr>)"
proof -
  obtain cp1 rc1 where e: "(if fldmax cp \<le> cno then expand alloc cp else (cp, 0)) = (cp1, rc1)"
    by (cases "if fldmax cp \<le> cno then expand alloc cp else (cp, 0)") auto
  have s1: "state cp1 = state cp"
    using e by (auto simp: expand_def Let_def split: if_splits)
  obtain r sp where n: "scan_next buf (scan cp1) = (r, sp)"
    by (cases "scan_next buf (scan cp1)") auto
  show ?thesis
    using assms s1 unfolding at_START_VAL_def
    by (cases r) (auto simp: e n ret_def reterr_def Let_def split: if_splits)
qed

lemma at_FINISH_Goto:
  assumes "at_FINISH (cp, buf, q, ppp, cno, nline, quoted, escp) =
           Goto l' (cp', buf', q', ppp', cno', nline', quoted', escp')"
  shows "buf' = buf \<and> q' = q \<and> cno' = cno + 1 \<and> nline' = nline \<and> state cp' = state cp \<and>
         l' = START_VAL \<and> fldmax cp' = fldmax cp \<and> ppp' = ppp + 1 \<and> buf ! ppp = delim cp"
  using assms unfolding at_FINISH_def
  by (cases "fld cp cno"; cases quoted) (auto simp: ret_def Let_def split: if_splits)

lemma at_FINISH_Return:
  assumes "at_FINISH (cp, buf, q, ppp, cno, nline, quoted, escp) =
           Return (Some (cp', buf', rc))"
  shows "buf' = buf \<and> fldtop cp' = cno + 1 \<and> buf ! ppp \<noteq> delim cp \<and>
         (rc = -1 \<and> \<not> (buf ! ppp = LF \<or> buf ! ppp = CR \<and> ppp + 1 < q \<and> buf ! (ppp + 1) = LF) \<and>
            state cp' = (state cp)\<lparr>errnum := CSV_ECRLF, errmsg := Some ''CRLF expected'',
              elinenum := linenum (state cp) + nline,
              echarnum := charnum (state cp) + (int ppp + 1),
              erownum := rownum (state cp) + 1, efldnum := int cno + 1\<rparr> \<or>
          (rc = int ppp + 1 \<and> buf ! ppp = LF \<or>
           rc = int ppp + 2 \<and> buf ! ppp = CR \<and> ppp + 1 < q \<and> buf ! (ppp + 1) = LF) \<and>
            state cp' = (state cp)\<lparr>linenum := linenum (state cp) + (nline + 1),
              rownum := rownum (state cp) + 1, charnum := charnum (state cp) + rc\<rparr>)"
  using assms unfolding at_FINISH_def
  by (cases "fld cp cno"; cases quoted)
     (auto simp: ret_def FINROW_def reterr_def Let_def split: if_splits)

lemma at_QUOTED_VAL_Goto:
  assumes "at_QUOTED_VAL (cp, buf, q, ppp, cno, nline, quoted, escp) =
           Goto l' (cp', buf', q', ppp', cno', nline', quoted', escp')"
  shows "buf' = buf \<and> q' = q \<and> cno' = cno \<and> nline \<le> nline' \<and> state cp' = state cp \<and>
         l' \<noteq> START_VAL \<and> fldmax cp' = fldmax cp \<and> fld cp' = fld cp \<and> quoted' = quoted"
proof -
  obtain r sp where n: "scan_next buf (scan cp) = (r, sp)" by (cases "scan_next buf (scan cp)") auto
  obtain r2 sp2 where n2: "scan_next buf sp = (r2, sp2)" by (cases "scan_next buf sp") auto
  from assms obtain m where r: "r = Some m"
    unfolding at_QUOTED_VAL_def by (cases r) (auto simp: n ret_def)
  consider (qq) "buf ! m = qte cp" | (ee) "esc cp \<noteq> qte cp" "buf ! m = esc cp"
    | (oo) "buf ! m \<noteq> qte cp" "buf ! m \<noteq> esc cp" by metis
  then show ?thesis
  proof cases
    case qq
    with assms show ?thesis unfolding at_QUOTED_VAL_def
      by (cases r2) (auto simp: n n2 r ret_def Let_def split: if_splits)
  next
    case ee
    with assms show ?thesis unfolding at_QUOTED_VAL_def
      by (auto simp: n r ret_def Let_def split: if_splits)
  next
    case oo
    with assms show ?thesis unfolding at_QUOTED_VAL_def
      by (auto simp: n r ret_def Let_def split: if_splits)
  qed
qed

lemma at_QUOTED_VAL_Return:
  assumes "at_QUOTED_VAL (cp, buf, q, ppp, cno, nline, quoted, escp) = Return x"
  shows "\<exists>cp' rc. x = Some (cp', buf, rc) \<and>
         (rc = 0 \<and> state cp' = state cp \<or>
          rc = -1 \<and> (\<exists>m. state cp' = (state cp)\<lparr>errnum := CSV_EQUOTE,
              errmsg := Some ''bad value after quote'', elinenum := linenum (state cp) + nline,
              echarnum := charnum (state cp) + int m, erownum := rownum (state cp) + 1,
              efldnum := int cno\<rparr>))"
proof -
  obtain r sp where n: "scan_next buf (scan cp) = (r, sp)" by (cases "scan_next buf (scan cp)") auto
  obtain r2 sp2 where n2: "scan_next buf sp = (r2, sp2)" by (cases "scan_next buf sp") auto
  show ?thesis
  proof (cases r)
    case None
    with assms show ?thesis unfolding at_QUOTED_VAL_def by (auto simp: n ret_def)
  next
    case (Some m)
    consider (qq) "buf ! m = qte cp" | (ee) "esc cp \<noteq> qte cp" "buf ! m = esc cp"
      | (oo) "buf ! m \<noteq> qte cp" "buf ! m \<noteq> esc cp" by metis
    then show ?thesis
    proof cases
      case qq
      with assms show ?thesis unfolding at_QUOTED_VAL_def
        by (cases r2) (auto simp: n n2 Some ret_def reterr_def Let_def split: if_splits)
    next
      case ee
      with assms show ?thesis unfolding at_QUOTED_VAL_def
        by (auto simp: n Some ret_def Let_def split: if_splits)
    next
      case oo
      with assms show ?thesis unfolding at_QUOTED_VAL_def
        by (auto simp: n Some ret_def Let_def split: if_splits)
    qed
  qed
qed

lemma at_label_Goto:
  assumes "at_label alloc l (cp, buf, q, ppp, cno, nline, quoted, escp) =
           Goto l' (cp', buf', q', ppp', cno', nline', quoted', escp')"
  shows "buf' = buf \<and> q' = q \<and> nline \<le> nline' \<and> state cp' = state cp"
proof (cases l)
  case START_VAL
  with assms at_START_VAL_Goto [of alloc cp buf q ppp cno nline quoted escp l' cp' buf' q' ppp' cno'
      nline' quoted' escp']
  show ?thesis by (simp add: at_label_def)
next
  case QUOTED_VAL
  with assms at_QUOTED_VAL_Goto [of cp buf q ppp cno nline quoted escp l' cp' buf' q' ppp' cno'
      nline' quoted' escp']
  show ?thesis by (simp add: at_label_def)
next
  case FINISH
  with assms at_FINISH_Goto [of cp buf q ppp cno nline quoted escp l' cp' buf' q' ppp' cno'
      nline' quoted' escp']
  show ?thesis by (simp add: at_label_def)
qed

text \<open>The three ways a call ends: more input needed, an error, a row.\<close>

definition ends_as :: "csv_state \<Rightarrow> char list \<Rightarrow> csv_parse_t \<Rightarrow> int \<Rightarrow> bool" where
  "ends_as st buf cp' rc \<longleftrightarrow>
     rc = 0 \<and> state cp' = st \<or>
     rc = -1 \<and> linenum (state cp') = linenum st \<and> charnum (state cp') = charnum st \<and>
        rownum (state cp') = rownum st \<and> errnum (state cp') \<noteq> CSV_NOERR \<or>
     0 < rc \<and> 1 \<le> fldtop cp' \<and> buf ! (nat rc - 1) = LF \<and>
        linenum st < linenum (state cp') \<and> charnum (state cp') = charnum st + rc \<and>
        rownum (state cp') = rownum st + 1 \<and> errnum (state cp') = errnum st"

lemma at_label_Return:
  assumes "at_label alloc l (cp, buf, q, ppp, cno, nline, quoted, escp) =
           Return (Some (cp', buf', rc))" and "0 \<le> nline"
  shows "buf' = buf \<and> ends_as (state cp) buf cp' rc"
proof (cases l)
  case START_VAL
  with assms at_START_VAL_Return [of alloc cp buf q ppp cno nline quoted escp cp' buf' rc]
  show ?thesis by (auto simp: at_label_def ends_as_def)
next
  case QUOTED_VAL
  with assms at_QUOTED_VAL_Return [of cp buf q ppp cno nline quoted escp "Some (cp', buf', rc)"]
  show ?thesis by (auto simp: at_label_def ends_as_def)
next
  case FINISH
  with assms have r: "at_FINISH (cp, buf, q, ppp, cno, nline, quoted, escp) =
      Return (Some (cp', buf', rc))" by (simp add: at_label_def)
  note f = at_FINISH_Return [OF r]
  from f have b: "buf' = buf" and t: "fldtop cp' = cno + 1" by simp_all
  from f consider
      (err) "rc = -1" "state cp' = (state cp)\<lparr>errnum := CSV_ECRLF,
              errmsg := Some ''CRLF expected'', elinenum := linenum (state cp) + nline,
              echarnum := charnum (state cp) + (int ppp + 1),
              erownum := rownum (state cp) + 1, efldnum := int cno + 1\<rparr>"
    | (lf) "rc = int ppp + 1" "buf ! ppp = LF"
        "state cp' = (state cp)\<lparr>linenum := linenum (state cp) + (nline + 1),
              rownum := rownum (state cp) + 1, charnum := charnum (state cp) + rc\<rparr>"
    | (crlf) "rc = int ppp + 2" "buf ! (ppp + 1) = LF"
        "state cp' = (state cp)\<lparr>linenum := linenum (state cp) + (nline + 1),
              rownum := rownum (state cp) + 1, charnum := charnum (state cp) + rc\<rparr>"
    by blast
  then have "ends_as (state cp) buf cp' rc"
  proof cases
    case err
    then show ?thesis by (simp add: ends_as_def)
  next
    case lf
    moreover have "nat (int ppp + 1) - 1 = ppp" by simp
    ultimately show ?thesis using t assms(2) by (simp add: ends_as_def)
  next
    case crlf
    moreover have "nat (int ppp + 2) - 1 = ppp + 1" by simp
    ultimately show ?thesis using t assms(2) by (simp add: ends_as_def)
  qed
  with b show ?thesis by simp
qed

lemma csv_line_from_ends:
  assumes "csv_line_from alloc l (cp, buf, q, ppp, cno, nline, quoted, escp) =
           Some (cp', buf', rc)" and "0 \<le> nline"
  shows "buf' = buf \<and> ends_as (state cp) buf cp' rc"
proof -
  let ?I = "\<lambda>(l :: label) (f :: frame). case f of (cpf, buff, qf, pf, cnof, nlf, qdf, ef) \<Rightarrow>
              buff = buf \<and> state cpf = state cp \<and> 0 \<le> nlf"
  let ?Q = "\<lambda>r :: csv_parse_t \<times> char list \<times> int. case r of (cpr, bufr, rcr) \<Rightarrow>
              bufr = buf \<and> ends_as (state cp) buf cpr rcr"
  have "?Q (cp', buf', rc)"
  proof (rule csv_line_from_rule [where I = ?I and Q = ?Q, OF assms(1)])
    show "?I l (cp, buf, q, ppp, cno, nline, quoted, escp)" using assms(2) by simp
  next
    fix l f l' f'
    assume i: "?I l f" and g: "at_label alloc l f = Goto l' f'"
    obtain cpf buff qf pf cnof nlf qdf ef where f: "f = (cpf, buff, qf, pf, cnof, nlf, qdf, ef)"
      by (cases f) auto
    obtain cpg bufg qg pg cnog nlg qdg eg where f': "f' = (cpg, bufg, qg, pg, cnog, nlg, qdg, eg)"
      by (cases f') auto
    from at_label_Goto [OF g [unfolded f f']] i show "?I l' f'" by (simp add: f f')
  next
    fix l f r
    assume i: "?I l f" and g: "at_label alloc l f = Return (Some r)"
    obtain cpf buff qf pf cnof nlf qdf ef where f: "f = (cpf, buff, qf, pf, cnof, nlf, qdf, ef)"
      by (cases f) auto
    obtain cpr bufr rcr where r: "r = (cpr, bufr, rcr)" by (cases r) auto
    from at_label_Return [OF g [unfolded f r]] i show "?Q r" by (simp add: f r)
  qed
  then show ?thesis by simp
qed

lemma ends_as_reterr: "ends_as (state cp) buf (fst (reterr cp CSV_EPARAM msg a b c)) (-1)"
  by (simp add: ends_as_def reterr_def)

lemma csv_line_ends:
  assumes "csv_line alloc cp buf bufsz = Some (cp', buf', rc)"
  shows "buf' = buf \<and> ends_as (state cp) (case buf of None \<Rightarrow> [] | Some mem \<Rightarrow> mem) cp' rc"
proof (cases buf)
  case None
  with assms show ?thesis
    by (auto simp: csv_line_def ends_as_def reterr_def split: if_splits)
next
  case (Some mem)
  show ?thesis
  proof (cases "bufsz \<le> 0")
    case True
    with assms Some show ?thesis
      by (auto simp: csv_line_def ends_as_def reterr_def split: if_splits)
  next
    case False
    let ?cp = "cp\<lparr>scan := scan_reset mem (scan cp) 0 (nat bufsz)\<rparr>"
    from assms Some False obtain mem' where
      r: "csv_line_from alloc START_VAL (?cp, mem, nat bufsz, 0, 0, 0, False, None) =
          Some (cp', mem', rc)" and b: "buf' = Some mem'"
      by (auto simp: csv_line_def Let_def split: if_splits)
    from csv_line_from_ends [OF r] b Some show ?thesis by simp
  qed
qed

text \<open>No \<^verbatim>\<open>assert\<close> of \<^verbatim>\<open>csv_line\<close> fails, and no null \<^verbatim>\<open>*fld\<close> is read.\<close>

definition frame_ok :: "label \<Rightarrow> frame \<Rightarrow> bool" where
  "frame_ok l f = (case f of (cp, buf, q, ppp, cno, nline, quoted, escp) \<Rightarrow>
     (case l of START_VAL \<Rightarrow> cno \<le> fldmax cp
      | _ \<Rightarrow> cno < fldmax cp \<and> fld cp cno \<noteq> None))"

lemma at_START_VAL_not_None:
  assumes "cno \<le> fldmax cp"
  shows "at_START_VAL alloc (cp, buf, q, ppp, cno, nline, quoted, escp) \<noteq> Return None"
proof -
  obtain cp1 rc where e: "(if fldmax cp \<le> cno then expand alloc cp else (cp, 0)) = (cp1, rc)"
    by (cases "if fldmax cp \<le> cno then expand alloc cp else (cp, 0)") auto
  have s1: "rc = 0 \<longrightarrow> cno < fldmax cp1"
    using e assms by (auto simp: expand_def Let_def split: if_splits)
  obtain r sp where n: "scan_next buf (scan cp1) = (r, sp)"
    by (cases "scan_next buf (scan cp1)") auto
  show ?thesis
    using s1 unfolding at_START_VAL_def
    by (cases r) (auto simp: e n ret_def reterr_def Let_def split: if_splits)
qed

lemma at_FINISH_not_None:
  assumes "fld cp cno \<noteq> None"
  shows "at_FINISH (cp, buf, q, ppp, cno, nline, quoted, escp) \<noteq> Return None"
  using assms unfolding at_FINISH_def
  by (cases "fld cp cno"; cases quoted) (auto simp: ret_def Let_def split: if_splits)

lemma at_label_not_None:
  assumes "frame_ok l f"
  shows "at_label alloc l f \<noteq> Return None"
proof -
  obtain cp buf q ppp cno nline quoted escp where f: "f = (cp, buf, q, ppp, cno, nline, quoted, escp)"
    by (cases f) auto
  show ?thesis
  proof (cases l)
    case START_VAL
    with assms f at_START_VAL_not_None [of cno cp alloc buf q ppp nline quoted escp]
    show ?thesis by (simp add: at_label_def frame_ok_def)
  next
    case QUOTED_VAL
    with f at_QUOTED_VAL_Return [of cp buf q ppp cno nline quoted escp None]
    show ?thesis by (auto simp: at_label_def)
  next
    case FINISH
    with assms f at_FINISH_not_None [of cp cno buf q ppp nline quoted escp]
    show ?thesis by (simp add: at_label_def frame_ok_def)
  qed
qed

lemma at_label_frame_ok:
  assumes "frame_ok l f" and g: "at_label alloc l f = Goto l' f'"
  shows "frame_ok l' f'"
proof -
  obtain cp buf q ppp cno nline quoted escp where f: "f = (cp, buf, q, ppp, cno, nline, quoted, escp)"
    by (cases f) auto
  obtain cp' buf' q' ppp' cno' nline' quoted' escp' where
    f': "f' = (cp', buf', q', ppp', cno', nline', quoted', escp')" by (cases f') auto
  show ?thesis
  proof (cases l)
    case START_VAL
    with g f f' at_START_VAL_Goto [of alloc cp buf q ppp cno nline quoted escp l' cp' buf' q' ppp'
        cno' nline' quoted' escp']
    show ?thesis by (cases l') (auto simp: at_label_def frame_ok_def)
  next
    case QUOTED_VAL
    with assms f f' at_QUOTED_VAL_Goto [of cp buf q ppp cno nline quoted escp l' cp' buf' q' ppp'
        cno' nline' quoted' escp']
    show ?thesis by (cases l') (auto simp: at_label_def frame_ok_def)
  next
    case FINISH
    with assms f f' at_FINISH_Goto [of cp buf q ppp cno nline quoted escp l' cp' buf' q' ppp'
        cno' nline' quoted' escp']
    show ?thesis by (auto simp: at_label_def frame_ok_def)
  qed
qed

lemma csv_line_from_total: "frame_ok l f \<Longrightarrow> csv_line_from alloc l f \<noteq> None"
proof (induction "(l, f)" arbitrary: l f rule: wf_induct_rule [OF wf_frame_less])
  case (1 l f)
  show ?case
  proof (cases "at_label alloc l f")
    case (Goto l' f')
    from "1.hyps" [OF at_label_less [OF Goto] at_label_frame_ok [OF "1.prems" Goto]] Goto
    show ?thesis by (simp add: csv_line_from.simps [of alloc l f])
  next
    case (Return x)
    with at_label_not_None [OF "1.prems", of alloc]
    show ?thesis by (auto simp: csv_line_from.simps [of alloc l f])
  qed
qed

lemma csv_line_total:
  assumes "case buf of None \<Rightarrow> True | Some mem \<Rightarrow> bufsz \<le> int (length mem)"
  shows "\<exists>cp' rc. csv_line alloc cp buf bufsz = Some (cp', buf, rc)"
proof (cases buf)
  case None
  then show ?thesis by (simp add: csv_line_def)
next
  case (Some mem)
  show ?thesis
  proof (cases "bufsz \<le> 0")
    case True
    with Some show ?thesis by (simp add: csv_line_def)
  next
    case False
    let ?f = "(cp\<lparr>scan := scan_reset mem (scan cp) 0 (nat bufsz)\<rparr>, mem, nat bufsz, 0, 0, 0, False, None) :: frame"
    have "frame_ok START_VAL ?f" by (simp add: frame_ok_def)
    from csv_line_from_total [OF this, of alloc]
    obtain cp' mem' rc where r: "csv_line_from alloc START_VAL ?f = Some (cp', mem', rc)"
      by (cases "csv_line_from alloc START_VAL ?f") auto
    from csv_line_from_ends [OF r] have "mem' = mem" by simp
    with r Some False assms show ?thesis by (simp add: csv_line_def Let_def)
  qed
qed

text \<open>\<^verbatim>\<open>touchup\<close> changes no field of the parser but the pointers \<open>fld\<close>, and keeps the size of the buffer.\<close>

lemma length_copy_head: "length (copy_head mem s p m) = length mem"
  by (induction m arbitrary: mem s p) auto

lemma length_copy_tail: "copy_tail mem s p = Some (mem', s', p') \<Longrightarrow> length mem' = length mem"
proof (induction mem s p rule: copy_tail.induct)
  case (1 mem s p)
  then show ?case
    by (auto simp: copy_tail.simps [of mem s p] split: if_splits)
qed

lemma squeeze_done: "\<not> p < q \<Longrightarrow> squeeze cp mem s p q = Some (mem, s)"
  by (subst squeeze.simps) simp

lemma squeeze_block:
  "p < q \<Longrightarrow> cmpestri (scan_escaped_string cp) 2 mem p (int q - int p) = 16 \<Longrightarrow> p + 16 < q \<Longrightarrow>
   squeeze cp mem s p q = squeeze cp (store16 mem s (take 16 (drop p mem))) (s + 16) (p + 16) q"
  by (subst squeeze.simps) simp

lemma squeeze_tail:
  "p < q \<Longrightarrow> cmpestri (scan_escaped_string cp) 2 mem p (int q - int p) = 16 \<Longrightarrow> \<not> p + 16 < q \<Longrightarrow>
   squeeze cp mem s p q =
     (case copy_tail mem s p of None \<Rightarrow> None
      | Some (mem, s, p) \<Rightarrow> if p = q then Some (mem, s) else None)"
  by (subst squeeze.simps) simp

lemma squeeze_pair:
  "p < q \<Longrightarrow> cmpestri (scan_escaped_string cp) 2 mem p (int q - int p) = m \<Longrightarrow> m \<noteq> 16 \<Longrightarrow>
   squeeze cp mem s p q =
     (if copy_head mem s p m ! (p + m) \<noteq> esc cp then None
      else squeeze cp ((copy_head mem s p m)[s + m := copy_head mem s p m ! (p + m + 1)])
             (s + m + 1) (p + m + 2) q)"
  by (subst squeeze.simps) (simp add: Let_def add.assoc)

lemma length_squeeze: "squeeze cp mem s p q = Some (mem', s') \<Longrightarrow> s < p \<Longrightarrow> q \<le> length mem \<Longrightarrow>
  length mem' = length mem"
proof (induction "q - p" arbitrary: mem s p rule: less_induct)
  case less
  show ?case
  proof (cases "p < q")
    case False
    with less.prems show ?thesis by (simp add: squeeze_done)
  next
    case True
    let ?m = "cmpestri (scan_escaped_string cp) 2 mem p (int q - int p)"
    show ?thesis
    proof (cases "?m = 16")
      case m: True
      show ?thesis
      proof (cases "p + 16 < q")
        case far: True
        let ?mem = "store16 mem s (take 16 (drop p mem))"
        have l: "length ?mem = length mem" using far less.prems by (simp add: store16_def)
        have "squeeze cp ?mem (s + 16) (p + 16) q = Some (mem', s')"
          using less.prems(1) by (simp add: squeeze_block [OF True m far])
        from less.hyps [OF _ this] far less.prems l show ?thesis by simp
      next
        case False
        from less.prems(1) obtain p' where "copy_tail mem s p = Some (mem', s', p')"
          by (cases "copy_tail mem s p")
             (auto simp: squeeze_tail [OF True m False] split: if_splits)
        then show ?thesis by (rule length_copy_tail)
      qed
    next
      case m: False
      let ?mem = "copy_head mem s p ?m"
      let ?mem2 = "?mem[s + ?m := ?mem ! (p + ?m + 1)]"
      have r: "squeeze cp ?mem2 (s + ?m + 1) (p + ?m + 2) q = Some (mem', s')"
        using less.prems(1) by (simp add: squeeze_pair [OF True refl m] split: if_splits)
      have "length mem' = length ?mem2"
        using less.hyps [OF _ r] True less.prems by (simp add: length_copy_head)
      then show ?thesis by (simp add: length_copy_head)
    qed
  qed
qed

lemma touchup_field_keeps:
  assumes "touchup_field cp mem i = Some (cp', mem')"
  shows "length mem' = length mem \<and> fldtop cp' = fldtop cp \<and> state cp' = state cp \<and>
         (\<forall>j. j \<noteq> i \<longrightarrow> fld cp' j = fld cp j) \<and> len cp' = len cp \<and> escptr cp' = escptr cp"
proof -
  from assms obtain p where p: "fld cp i = Some p"
    by (cases "fld cp i") (auto simp: touchup_field_def)
  show ?thesis
  proof (cases "escptr cp i")
    case None
    with assms p show ?thesis
      by (auto simp: touchup_field_def Let_def split: if_splits)
  next
    case (Some e)
    let ?q = "nat (int p + len cp i)"
    let ?mem = "mem[?q := NUL]"
    from assms p Some obtain m2 s2 where
      b: "p \<le> e" "e < ?q" "?q < length mem" and
      sq: "squeeze cp (?mem[e := ?mem ! (e + 1)]) (e + 1) (e + 2) ?q = Some (m2, s2)" and
      r: "cp' = cp" "mem' = m2[s2 := NUL]"
      by (auto simp: touchup_field_def Let_def split: if_splits option.splits)
    from length_squeeze [OF sq] b have "length m2 = length mem" by simp
    with r show ?thesis by simp
  qed
qed

definition touchup_step ::
  "nat \<Rightarrow> (csv_parse_t \<times> char list) option \<Rightarrow> (csv_parse_t \<times> char list) option" where
  "touchup_step i r = (case r of None \<Rightarrow> None | Some (cp, mem) \<Rightarrow> touchup_field cp mem i)"

lemma touchup_fold: "touchup cp mem = fold touchup_step [0..<fldtop cp] (Some (cp, mem))"
  unfolding touchup_def touchup_step_def ..

lemma touchup_step_simps:
  "touchup_step i None = None" "touchup_step i (Some (cp, mem)) = touchup_field cp mem i"
  by (simp_all add: touchup_step_def)

lemma fold_touchup_step_None: "fold touchup_step is None = None"
  by (induction "is") (simp_all add: touchup_step_simps)

lemma fold_touchup_keeps:
  "fold touchup_step is (Some (cp, mem)) = Some (cp', mem') \<Longrightarrow>
   length mem' = length mem \<and> fldtop cp' = fldtop cp \<and> state cp' = state cp \<and>
   len cp' = len cp \<and> escptr cp' = escptr cp"
proof (induction "is" arbitrary: cp mem)
  case Nil
  then show ?case by simp
next
  case (Cons i "is")
  show ?case
  proof (cases "touchup_field cp mem i")
    case None
    with Cons.prems show ?thesis by (simp add: touchup_step_simps fold_touchup_step_None)
  next
    case (Some a)
    obtain cp1 mem1 where a: "a = (cp1, mem1)" by (cases a)
    from Cons.prems Some a have "fold touchup_step is (Some (cp1, mem1)) = Some (cp', mem')"
      by (simp add: touchup_step_simps)
    from Cons.IH [OF this] touchup_field_keeps [OF Some [unfolded a]] show ?thesis by simp
  qed
qed

lemma touchup_keeps:
  "touchup cp mem = Some (cp', mem') \<Longrightarrow>
   length mem' = length mem \<and> fldtop cp' = fldtop cp \<and> state cp' = state cp \<and>
   len cp' = len cp \<and> escptr cp' = escptr cp"
  unfolding touchup_fold by (rule fold_touchup_keeps)

section \<open>What the scanner finds\<close>

text \<open>
  The special bytes of a scanner are the valid lanes of its \<open>match\<close>.  A scanner is
  \<open>synced\<close> at \<open>c\<close> when the matches it has pending are the special bytes of the window
  from \<open>c\<close> on: the bits of the map are the special bytes of the current 16 bytes at or
  after \<open>c\<close>, and no special byte lies between the end of the current 16 bytes and \<open>c\<close>.
\<close>

definition special :: "scan_t \<Rightarrow> char \<Rightarrow> bool" where
  "special sp x \<longleftrightarrow> x \<in> set (take (min 16 (nat \<bar>matchlen sp\<bar>)) (match sp))"

definition synced :: "char list \<Rightarrow> scan_t \<Rightarrow> nat \<Rightarrow> bool" where
  "synced mem sp c \<longleftrightarrow>
     base sp \<le> c \<and>
     (\<forall>i<16. bit (bmap sp) i \<longleftrightarrow>
               c \<le> base sp + i \<and> base sp + i < qend sp \<and> special sp (mem ! (base sp + i))) \<and>
     (\<forall>k. base sp + 16 \<le> k \<and> k < c \<and> k < qend sp \<longrightarrow> \<not> special sp (mem ! k))"

lemma bit_fillbmap_special:
  "p \<le> q \<Longrightarrow> match sp' = match sp \<Longrightarrow> matchlen sp' = matchlen sp \<Longrightarrow>
   bit (fillbmap mem p (int q - int p) (match sp) (matchlen sp)) i \<longleftrightarrow>
     i < 16 \<and> p + i < q \<and> special sp' (mem ! (p + i))"
  by (auto simp: bit_fillbmap special_def)


lemma special_scan_reset [simp]: "special (scan_reset mem sp p q) = special sp"
  by (rule ext) (simp add: special_def scan_reset_def)





lemma scan_forward_none:
  assumes "bmap sp = 0" and "\<forall>k. b + 16 \<le> k \<and> k < qend sp \<longrightarrow> \<not> special sp (mem ! k)"
  shows "snd (scan_forward mem sp b) = -1"
  using assms
proof (induction "qend sp - b" arbitrary: b sp rule: less_induct)
  case less
  show ?case
  proof (cases "qend sp \<le> b + 16")
    case True
    with less.prems(1) show ?thesis by (subst scan_forward.simps) simp
  next
    case False
    let ?w = "fillbmap mem (b + 16) (int (qend sp) - int (b + 16)) (match sp) (matchlen sp)"
    let ?sp1 = "sp\<lparr>bmap := ?w\<rparr>"
    have le: "b + 16 \<le> qend sp" using False by simp
    have u: "scan_forward mem sp b = scan_forward mem ?sp1 (b + 16)"
      using less.prems(1) False by (subst scan_forward.simps) simp
    have bw: "\<And>i. bit ?w i \<longleftrightarrow> i < 16 \<and> b + 16 + i < qend sp \<and> special sp (mem ! (b + 16 + i))"
      using bit_fillbmap_special [OF le refl refl, of mem sp] by simp
    have "\<And>i. \<not> bit ?w i"
    proof -
      fix i
      show "\<not> bit ?w i" using less.prems(2) bw [of i] by auto
    qed
    then have z: "bmap ?sp1 = 0" by (simp add: bit_eq_iff)
    have "snd (scan_forward mem ?sp1 (b + 16)) = -1"
    proof (rule less.hyps)
      show "qend ?sp1 - (b + 16) < qend sp - b" using False by simp
      show "bmap ?sp1 = 0" by (rule z)
      show "\<forall>k. b + 16 + 16 \<le> k \<and> k < qend ?sp1 \<longrightarrow> \<not> special ?sp1 (mem ! k)"
        using less.prems(2) by (simp add: special_def)
    qed
    with u show ?thesis by simp
  qed
qed


lemma special_update [simp]:
  "special (sp\<lparr>bmap := w\<rparr>) = special sp" "special (sp\<lparr>base := b\<rparr>) = special sp"
  by (rule ext, simp add: special_def)+




lemma scan_next_none:
  assumes s: "synced mem sp c" and "\<forall>k. c \<le> k \<and> k < qend sp \<longrightarrow> \<not> special sp (mem ! k)"
  shows "\<exists>sp'. scan_next mem sp = (None, sp')"
proof -
  have bits: "\<And>i. i < 16 \<Longrightarrow> bit (bmap sp) i \<longleftrightarrow>
      c \<le> base sp + i \<and> base sp + i < qend sp \<and> special sp (mem ! (base sp + i))"
    using s by (simp add: synced_def)
  have z: "bmap sp = 0"
  proof (rule bit_eqI)
    fix i
    show "bit (bmap sp) i \<longleftrightarrow> bit (0 :: 16 word) i"
    proof (cases "i < 16")
      case True
      with bits [OF True] assms(2) show ?thesis by auto
    next
      case False
      then show ?thesis by (auto dest: bit_imp_le_length)
    qed
  qed
  have "\<forall>k. base sp + 16 \<le> k \<and> k < qend sp \<longrightarrow> \<not> special sp (mem ! k)"
  proof (intro allI impI)
    fix k assume k: "base sp + 16 \<le> k \<and> k < qend sp"
    show "\<not> special sp (mem ! k)"
    proof (cases "k < c")
      case True
      with s k show ?thesis by (simp add: synced_def)
    next
      case False
      with assms(2) k show ?thesis by simp
    qed
  qed
  from scan_forward_none [OF z this] have "snd (scan_forward mem sp (base sp)) = -1" .
  then show ?thesis using z by (cases "scan_forward mem sp (base sp)") (simp add: scan_next_def)
qed

section \<open>Rows of well-formed fields\<close>

text \<open>
  The quoted form of a field's content under the doubling convention: every quote byte of
  the content is written twice.
\<close>

definition enc :: "char \<Rightarrow> string \<Rightarrow> string" where
  "enc qc c = concat (map (\<lambda>x. if x = qc then [qc, qc] else [x]) c)"

lemma enc_simps [simp]:
  "enc qc [] = []"
  "enc qc (x # c) = (if x = qc then qc # qc # enc qc c else x # enc qc c)"
  by (simp_all add: enc_def)

lemma enc_append [simp]: "enc qc (a @ b) = enc qc a @ enc qc b"
  by (simp add: enc_def)


text \<open>
  The parser is set up for a buffer when its scanner looks for the five bytes of the
  configuration.  The scanner is \<open>ready\<close> at \<open>k\<close> when, besides, it is synced there and
  its window ends at \<open>q\<close>.
\<close>

definition looks_for :: "csv_parse_t \<Rightarrow> scan_t \<Rightarrow> bool" where
  "looks_for cp sp \<longleftrightarrow> (\<forall>x. special sp x \<longleftrightarrow> x \<in> {qte cp, esc cp, delim cp, CR, LF})"

definition ready :: "csv_parse_t \<Rightarrow> char list \<Rightarrow> nat \<Rightarrow> scan_t \<Rightarrow> nat \<Rightarrow> bool" where
  "ready cp buf q sp k \<longleftrightarrow> looks_for cp sp \<and> synced buf sp k \<and> qend sp = q"



lemma ready_special:
  "ready cp buf q sp k \<Longrightarrow> special sp x \<longleftrightarrow> x \<in> {qte cp, esc cp, delim cp, CR, LF}"
  by (simp add: ready_def looks_for_def)

lemma ready_special_same:
  "ready cp buf q sp k \<Longrightarrow> ready cp buf q sp' k' \<Longrightarrow> special sp' x = special sp x"
  by (simp add: ready_special)

lemma ready_cp [simp]:
  "ready (cp\<lparr>scan := s\<rparr>) = ready cp" "ready (cp\<lparr>fld := f\<rparr>) = ready cp"
  "ready (cp\<lparr>len := l\<rparr>) = ready cp" "ready (cp\<lparr>escptr := e\<rparr>) = ready cp"
  "ready (cp\<lparr>fldmax := m\<rparr>) = ready cp" "ready (cp\<lparr>fldtop := t\<rparr>) = ready cp"
  "ready (cp\<lparr>state := st\<rparr>) = ready cp"
  by (intro ext, simp add: ready_def looks_for_def)+








text \<open>\<^verbatim>\<open>FINISH\<close>: the parser after the field has been recorded.\<close>

definition recorded :: "csv_parse_t \<Rightarrow> nat \<Rightarrow> nat \<Rightarrow> nat \<Rightarrow> bool \<Rightarrow> nat option \<Rightarrow> csv_parse_t" where
  "recorded cp cno start t quoted escp =
     (if quoted
      then cp\<lparr>len := (len cp)(cno := int t - int start - 2),
              escptr := (escptr cp)(cno := escp),
              fld := (fld cp)(cno := Some (start + 1))\<rparr>
      else cp\<lparr>len := (len cp)(cno := int t - int start),
              escptr := (escptr cp)(cno := escp)\<rparr>)"





text \<open>
  A field of a row is written unquoted (\<open>Plain\<close>: its bytes are the content) or quoted
  (\<open>Quoted\<close>: the content between two quotes, with its quotes doubled).  A row is its
  fields separated by the delimiter and ended by LF or by CR LF.
\<close>

datatype field = Plain string | Quoted string

fun raw :: "char \<Rightarrow> field \<Rightarrow> string" where
  "raw qc (Plain f) = f"
| "raw qc (Quoted c) = qc # enc qc c @ [qc]"



text \<open>An unquoted field is well formed when none of its bytes is special.\<close>

fun plain_ok :: "csv_parse_t \<Rightarrow> field \<Rightarrow> bool" where
  "plain_ok cp (Plain f) \<longleftrightarrow> (\<forall>x \<in> set f. x \<notin> {qte cp, esc cp, delim cp, CR, LF})"
| "plain_ok cp (Quoted c) \<longleftrightarrow> True"

text \<open>What \<^verbatim>\<open>csv_line\<close> records for a field that starts at \<open>k\<close>: \<^verbatim>\<open>fld\<close>, \<^verbatim>\<open>len\<close> and \<^verbatim>\<open>escptr\<close>.\<close>

fun descr :: "char \<Rightarrow> nat \<Rightarrow> field \<Rightarrow> nat \<times> int \<times> nat option" where
  "descr qc k (Plain f) = (k, int (length f), None)"
| "descr qc k (Quoted c) =
     (k + 1, int (length (enc qc c)),
      if qc \<in> set c then Some (k + 1 + length (takeWhile (\<lambda>x. x \<noteq> qc) c)) else None)"

fun layout :: "char \<Rightarrow> nat \<Rightarrow> field list \<Rightarrow> (nat \<times> int \<times> nat option) list" where
  "layout qc k [] = []"
| "layout qc k (F # fs) = descr qc k F # layout qc (k + length (raw qc F) + 1) fs"

lemma length_layout [simp]: "length (layout qc k fs) = length fs"
  by (induction fs arbitrary: k) auto



text \<open>The fields up to \<open>cno\<close> untouched, and the configuration.\<close>

definition same_config :: "csv_parse_t \<Rightarrow> csv_parse_t \<Rightarrow> bool" where
  "same_config cp cp' \<longleftrightarrow>
     qte cp' = qte cp \<and> esc cp' = esc cp \<and> delim cp' = delim cp \<and> nullstr cp' = nullstr cp \<and>
     nullstrsz cp' = nullstrsz cp \<and> scan_escaped_string cp' = scan_escaped_string cp \<and>
     lastbuf cp' = lastbuf cp"

definition field_at :: "csv_parse_t \<Rightarrow> nat \<Rightarrow> nat option \<times> int \<times> nat option" where
  "field_at cp i = (fld cp i, len cp i, escptr cp i)"




definition doubling :: "csv_parse_t \<Rightarrow> bool" where
  "doubling cp \<longleftrightarrow> esc cp = qte cp \<and> delim cp \<notin> {qte cp, CR, LF} \<and> qte cp \<notin> {CR, LF}"

lemma FINROW_keeps [simp]:
  "field_at (fst (FINROW cp p n)) j = field_at cp j"
  "fldtop (fst (FINROW cp p n)) = fldtop cp"
  "same_config cp0 (fst (FINROW cp p n)) = same_config cp0 cp"
  by (simp_all add: FINROW_def field_at_def same_config_def Let_def)

lemma fldtop_keeps [simp]:
  "field_at (cp\<lparr>fldtop := t\<rparr>) j = field_at cp j"
  "same_config cp0 (cp\<lparr>fldtop := t\<rparr>) = same_config cp0 cp"
  by (simp_all add: field_at_def same_config_def)

lemma ready_recorded [simp]: "ready (recorded cp cno k t qd e) = ready cp"
  by (simp add: recorded_def)

lemma config_recorded [simp]:
  "qte (recorded cp cno k t qd e) = qte cp" "esc (recorded cp cno k t qd e) = esc cp"
  "delim (recorded cp cno k t qd e) = delim cp"
  by (simp_all add: recorded_def)

lemma doubling_recorded [simp]: "doubling (recorded cp cno k t qd e) = doubling cp"
  by (simp add: doubling_def)

lemma plain_ok_scan [simp]: "plain_ok (cp\<lparr>scan := sp\<rparr>) F = plain_ok cp F"
  by (cases F) simp_all

lemma doubling_scan [simp]: "doubling (cp\<lparr>scan := sp\<rparr>) = doubling cp"
  by (simp add: doubling_def)

lemma plain_ok_recorded [simp]: "plain_ok (recorded cp cno k t qd e) F = plain_ok cp F"
  by (cases F) simp_all







section \<open>What \<^verbatim>\<open>touchup\<close> makes of a recorded row\<close>

text \<open>
  The three copies of \<^verbatim>\<open>touchup\<close> (byte by byte, 16 bytes at once, up to the NUL) move a
  run \<open>w\<close> of bytes down over a gap \<open>G\<close>: from \<open>A @ G @ w @ X\<close> to
  \<open>A @ w @ drop (length w) (G @ w) @ X\<close>.
\<close>

definition moved :: "char list \<Rightarrow> char list \<Rightarrow> char list" where
  "moved G w = drop (length w) (G @ w)"

lemma length_moved [simp]: "length (moved G w) = length G"
  by (simp add: moved_def)

lemma moved_Nil [simp]: "moved G [] = G"
  by (simp add: moved_def)




lemma store16_moves:
  "length w = 16 \<Longrightarrow>
   store16 (A @ G @ w @ X) (length A) (take 16 (drop (length A + length G) (A @ G @ w @ X))) =
   A @ w @ moved G w @ X"
  by (simp add: store16_def moved_def)





text \<open>
  The value that a field of a row is handed out with: null (\<open>None\<close>) when the field has no
  doubled quote and its content is the null marker, and the content otherwise.
\<close>

definition marker :: "csv_parse_t \<Rightarrow> string" where
  "marker cp = cstr (nullstr cp) 0"







text \<open>
  Field \<open>i\<close> of a row, recorded at its place in the row text: \<^verbatim>\<open>touchup\<close> rewrites the bytes
  of the field and its terminator only, and leaves the content as a C string at \<^verbatim>\<open>fld[i]\<close>.
\<close>

definition unquotes :: "csv_parse_t \<Rightarrow> char \<Rightarrow> bool" where
  "unquotes cp qc \<longleftrightarrow>
     esc cp = qc \<and> set (take (min 16 (nat \<bar>2\<bar>)) (scan_escaped_string cp)) = {qc} \<and>
     nullstrsz cp = int (length (marker cp))"



lemma unquotes_fld [simp]: "unquotes (cp\<lparr>fld := g\<rparr>) qc = unquotes cp qc"
  by (simp add: unquotes_def marker_def)

lemma marker_fld [simp]: "marker (cp\<lparr>fld := g\<rparr>) = marker cp"
  by (simp add: marker_def)



section \<open>A row that ends in a CR without LF\<close>




section \<open>The fields of a well-formed row\<close>

text \<open>
  A parser is \<open>configured\<close> for the doubling convention when it is in the state that
  \<^verbatim>\<open>csv_open\<close> leaves with the escape equal to the quote, and the quote and the delimiter
  are not line-ending bytes.
\<close>

definition configured :: "csv_parse_t \<Rightarrow> bool" where
  "configured cp \<longleftrightarrow> looks_for cp (scan cp) \<and> doubling cp \<and> unquotes cp (qte cp)"


lemma configured_lastbuf [simp]: "configured (cp\<lparr>lastbuf := x\<rparr>) = configured cp"
  by (simp add: configured_def looks_for_def doubling_def unquotes_def marker_def)







section \<open>The null marker stored by \<^verbatim>\<open>csv_open\<close>\<close>

lemma takeWhile_not_NUL_append_NUL:
  "NUL \<notin> set xs \<Longrightarrow> takeWhile (\<lambda>c. c \<noteq> NUL) (xs @ NUL # ys) = xs"
  by (induction xs) auto

lemma set_takeWhile_not_NUL: "NUL \<notin> set (takeWhile (\<lambda>c. c \<noteq> NUL) xs)"
  by (induction xs) auto

lemma nullstr_array:
  assumes s: "NUL \<notin> set s"
  shows "(take 20 (s @ replicate 20 NUL))[19 := NUL] = take 19 s @ replicate (20 - length (take 19 s)) NUL"
proof (cases "length s \<le> 19")
  case True
  then have "take 20 (s @ replicate 20 NUL) = s @ replicate (20 - length s) NUL" by simp
  moreover have "(s @ replicate (20 - length s) NUL)[19 := NUL] = s @ replicate (20 - length s) NUL"
    using True by (intro nth_equalityI) (auto simp: nth_list_update nth_append)
  ultimately show ?thesis using True by simp
next
  case False
  then have l: "20 \<le> length s" by simp
  then have "take 20 (s @ replicate 20 NUL) = take 20 s" by simp
  moreover have "(take 20 s)[19 := NUL] = take 19 s @ [NUL]"
    using l by (intro nth_equalityI) (auto simp: nth_list_update nth_append less_Suc_eq)
  ultimately show ?thesis using l by (simp add: min_def)
qed

text \<open>
  Claim C9.  When \<^verbatim>\<open>calloc\<close> succeeds, \<^verbatim>\<open>csv_open\<close> stores, for every null-marker argument,
  the first 19 bytes of the argument's string (all of it when it is shorter): the array has
  20 bytes, its last byte is NUL, so the stored copy is NUL-terminated, and \<open>nullstrsz\<close> is
  the length of the stored string, at most 19.
\<close>

theorem C9_csv_open_nullstr:
  assumes "alloc Parser"
  shows "\<exists>cp. csv_open alloc qte0 esc0 delim0 nullstr0 = Some cp \<and>
           length (nullstr cp) = 20 \<and>
           cstr (nullstr cp) 0 =
             take 19 (takeWhile (\<lambda>c. c \<noteq> NUL) (case nullstr0 of None \<Rightarrow> [] | Some s \<Rightarrow> s)) \<and>
           nullstr cp ! 19 = NUL \<and>
           nullstrsz cp = int (length (cstr (nullstr cp) 0)) \<and>
           nullstrsz cp \<le> 19"
proof -
  let ?s = "takeWhile (\<lambda>c. c \<noteq> NUL) (case nullstr0 of None \<Rightarrow> [] | Some s \<Rightarrow> s)"
  let ?a = "(strncpy 20 (case nullstr0 of None \<Rightarrow> [] | Some s \<Rightarrow> s))[19 := NUL]"
  have n: "NUL \<notin> set ?s" by (rule set_takeWhile_not_NUL)
  have a: "?a = take 19 ?s @ replicate (20 - length (take 19 ?s)) NUL"
    unfolding strncpy_def by (rule nullstr_array [OF n])
  have n19: "NUL \<notin> set (take 19 ?s)" using n by (auto dest: in_set_takeD)
  have r: "replicate (20 - length (take 19 ?s)) NUL = NUL # replicate (19 - length (take 19 ?s)) NUL"
    by (cases "20 - length (take 19 ?s)") (auto simp: min_def split: if_splits)
  have c: "takeWhile (\<lambda>c. c \<noteq> NUL) ?a = take 19 ?s"
    unfolding a r by (rule takeWhile_not_NUL_append_NUL [OF n19])
  have len: "length ?a = 20" by (simp add: strncpy_def)
  have last: "?a ! 19 = NUL" using len by simp
  show ?thesis
    using assms c len last
    by (simp add: csv_open_def Let_def cstr_def strlen_def)
qed

theorem C9_csv_open_nullstr_witness:
  "\<exists>cp. csv_open (\<lambda>_. True) 0 0 0 (Some ''abcdefghijklmnopqrstuvwxyz'') = Some cp \<and>
        cstr (nullstr cp) 0 = ''abcdefghijklmnopqrs'' \<and> nullstrsz cp = 19"
  using C9_csv_open_nullstr [of "\<lambda>_. True" 0 0 0 "Some ''abcdefghijklmnopqrstuvwxyz''"]
  by auto

section \<open>Claims about \<^verbatim>\<open>csv_line\<close> and the feeds\<close>

text \<open>
  Claim C6.  Whatever a call of \<^verbatim>\<open>csv_line\<close> returns: when it returns a completed row
  (a positive count) the row number has gone up by one, the character offset by the count
  and the line number by at least one; when it does not, the three counters are what they
  were; and when it returns 0 the whole \<^verbatim>\<open>state\<close> of the parser, error record included, is
  what it was.
\<close>

theorem C6_counters:
  assumes "csv_line alloc cp buf bufsz = Some (cp', buf', rc)"
  shows "(0 < rc \<longrightarrow> linenum (state cp) < linenum (state cp') \<and>
                   charnum (state cp') = charnum (state cp) + rc \<and>
                   rownum (state cp') = rownum (state cp) + 1) \<and>
         (\<not> 0 < rc \<longrightarrow> linenum (state cp') = linenum (state cp) \<and>
                     charnum (state cp') = charnum (state cp) \<and>
                     rownum (state cp') = rownum (state cp)) \<and>
         (rc = 0 \<longrightarrow> state cp' = state cp)"
  using csv_line_ends [OF assms] by (auto simp: ends_as_def)

theorem C6_counters_witness:
  "\<exists>cp cp1 cp2 cp3 b1 b2 b3.
     csv_open (\<lambda>_. True) 0 0 0 None = Some cp \<and>
     csv_line (\<lambda>_. True) cp (Some (''a,b'' @ [LF] @ ''c'')) 5 = Some (cp1, b1, 4) \<and>
     linenum (state cp1) = 1 \<and> charnum (state cp1) = 4 \<and> rownum (state cp1) = 1 \<and>
     csv_line (\<lambda>_. True) cp1 (Some ''c,d'') 3 = Some (cp2, b2, 0) \<and>
     state cp2 = state cp1 \<and>
     csv_line (\<lambda>_. True) cp1 (Some (''c,d'' @ [CR] @ ''e'')) 5 = Some (cp3, b3, -1) \<and>
     linenum (state cp3) = 1 \<and> charnum (state cp3) = 4 \<and> rownum (state cp3) = 1"
proof -
  have "case csv_open (\<lambda>_. True) 0 0 0 None of None \<Rightarrow> False
        | Some cp \<Rightarrow>
            (case csv_line (\<lambda>_. True) cp (Some (''a,b'' @ [LF] @ ''c'')) 5 of None \<Rightarrow> False
             | Some (cp1, b1, rc1) \<Rightarrow>
                 rc1 = 4 \<and> linenum (state cp1) = 1 \<and>
                 (case csv_line (\<lambda>_. True) cp1 (Some ''c,d'') 3 of None \<Rightarrow> False
                  | Some (cp2, b2, rc2) \<Rightarrow> rc2 = 0) \<and>
                 (case csv_line (\<lambda>_. True) cp1 (Some (''c,d'' @ [CR] @ ''e'')) 5 of
                    None \<Rightarrow> False
                  | Some (cp3, b3, rc3) \<Rightarrow> rc3 = -1))"
    by code_simp
  then obtain cp cp1 cp2 cp3 b1 b2 b3 where
    o: "csv_open (\<lambda>_. True) 0 0 0 None = Some cp" and
    r1: "csv_line (\<lambda>_. True) cp (Some (''a,b'' @ [LF] @ ''c'')) 5 = Some (cp1, b1, 4)" and
    l1: "linenum (state cp1) = 1" and
    r2: "csv_line (\<lambda>_. True) cp1 (Some ''c,d'') 3 = Some (cp2, b2, 0)" and
    r3: "csv_line (\<lambda>_. True) cp1 (Some (''c,d'' @ [CR] @ ''e'')) 5 = Some (cp3, b3, -1)"
    by (auto split: option.splits)
  have z: "charnum (state cp) = 0" "rownum (state cp) = 0"
    using o by (auto simp: csv_open_def Let_def)
  from C6_counters [OF r1] C6_counters [OF r2] C6_counters [OF r3] o r1 r2 r3 l1 z
  show ?thesis by auto
qed

text \<open>
  Claim C7.  \<^verbatim>\<open>csv_line\<close> hands back the buffer it was given, byte for byte, whatever the
  buffer, the length and the parser, and whether it returns a row, 0 or an error.
\<close>

theorem C7_csv_line_keeps_buffer:
  assumes "csv_line alloc cp buf bufsz = Some (cp', buf', rc)"
  shows "buf' = buf"
  using csv_line_ends [OF assms] by simp

text \<open>
  At the row \<^verbatim>\<open>"x",b\<close> and LF: \<^verbatim>\<open>csv_line\<close> returns 6 and leaves the buffer alone; it is
  \<^verbatim>\<open>csv_feed\<close>, through \<^verbatim>\<open>touchup\<close>, that writes the NULs into it.
\<close>

theorem C7_csv_line_keeps_buffer_witness:
  "\<exists>cp cp1 cp2 f.
     csv_open (\<lambda>_. True) 0 0 0 None = Some cp \<and>
     csv_line (\<lambda>_. True) cp (Some ([CHR 0x22] @ ''x'' @ [CHR 0x22] @ '',b'' @ [LF])) 6 =
       Some (cp1, Some ([CHR 0x22] @ ''x'' @ [CHR 0x22] @ '',b'' @ [LF]), 6) \<and>
     csv_feed (\<lambda>_. True) cp (Some ([CHR 0x22] @ ''x'' @ [CHR 0x22] @ '',b'' @ [LF])) 6 =
       Some (cp2, Some ([CHR 0x22] @ ''x'' @ [NUL] @ '','' @ ''b'' @ [NUL]), 6, Some f, 2)"
proof -
  have "case csv_open (\<lambda>_. True) 0 0 0 None of None \<Rightarrow> False
        | Some cp \<Rightarrow>
            (case csv_line (\<lambda>_. True) cp (Some ([CHR 0x22] @ ''x'' @ [CHR 0x22] @ '',b'' @ [LF])) 6
             of None \<Rightarrow> False | Some (cp1, b1, rc1) \<Rightarrow> rc1 = 6) \<and>
            (case csv_feed (\<lambda>_. True) cp (Some ([CHR 0x22] @ ''x'' @ [CHR 0x22] @ '',b'' @ [LF])) 6
             of None \<Rightarrow> False
             | Some (cp2, b2, rc2, f, n) \<Rightarrow>
                 b2 = Some ([CHR 0x22] @ ''x'' @ [NUL] @ '','' @ ''b'' @ [NUL]) \<and> rc2 = 6 \<and>
                 f \<noteq> None \<and> n = 2)"
    by code_simp
  then obtain cp cp1 b1 cp2 f where
    o: "csv_open (\<lambda>_. True) 0 0 0 None = Some cp" and
    r1: "csv_line (\<lambda>_. True) cp (Some ([CHR 0x22] @ ''x'' @ [CHR 0x22] @ '',b'' @ [LF])) 6 =
         Some (cp1, b1, 6)" and
    r2: "csv_feed (\<lambda>_. True) cp (Some ([CHR 0x22] @ ''x'' @ [CHR 0x22] @ '',b'' @ [LF])) 6 =
         Some (cp2, Some ([CHR 0x22] @ ''x'' @ [NUL] @ '','' @ ''b'' @ [NUL]), 6, Some f, 2)"
    by (auto split: option.splits)
  from C7_csv_line_keeps_buffer [OF r1] o r1 r2 show ?thesis by auto
qed

text \<open>
  Claim C10.  Whenever \<^verbatim>\<open>csv_feed\<close> returns a positive count, the field count it hands out
  is at least 1; it is \<^verbatim>\<open>cp->fldtop\<close>, and the field array is handed out with it.
\<close>

lemma csv_feed_row:
  assumes "csv_feed alloc cp buf bufsz = Some (cp', buf', rc, field, nfield)" and "0 < rc"
  shows "1 \<le> nfield \<and> nfield = int (fldtop cp') \<and> field = Some (fld cp')"
proof -
  from assms obtain cp1 mem mem' where
    l: "csv_line alloc cp buf bufsz = Some (cp1, Some mem, rc)" and
    t: "touchup cp1 mem = Some (cp', mem')" and
    r: "nfield = int (fldtop cp')" "field = Some (fld cp')"
    by (auto simp: csv_feed_def split: option.splits if_splits)
  from csv_line_ends [OF l] assms(2) have "1 \<le> fldtop cp1" by (auto simp: ends_as_def)
  with touchup_keeps [OF t] r show ?thesis by simp
qed

theorem C10_at_least_one_field:
  assumes "csv_feed alloc cp buf bufsz = Some (cp', buf', rc, field, nfield)" and "0 < rc"
  shows "1 \<le> nfield \<and> nfield = int (fldtop cp') \<and> field = Some (fld cp')"
  using assms by (rule csv_feed_row)

text \<open>The row that is only a terminator has one field, of length zero.\<close>

theorem C10_at_least_one_field_witness:
  "\<exists>cp cp' buf' f.
     csv_open (\<lambda>_. True) 0 0 0 None = Some cp \<and>
     csv_feed (\<lambda>_. True) cp (Some [LF]) 1 = Some (cp', buf', 1, Some f, 1) \<and>
     fldtop cp' = 1 \<and> len cp' 0 = 0"
proof -
  have "case csv_open (\<lambda>_. True) 0 0 0 None of None \<Rightarrow> False
        | Some cp \<Rightarrow>
            (case csv_feed (\<lambda>_. True) cp (Some [LF]) 1 of None \<Rightarrow> False
             | Some (cp', b, rc, f, n) \<Rightarrow> rc = 1 \<and> len cp' 0 = 0)"
    by code_simp
  then obtain cp cp' b f n where
    o: "csv_open (\<lambda>_. True) 0 0 0 None = Some cp" and
    r: "csv_feed (\<lambda>_. True) cp (Some [LF]) 1 = Some (cp', b, 1, f, n)" and
    l: "len cp' 0 = 0"
    by (auto split: option.splits)
  from C10_at_least_one_field [OF r] have "1 \<le> n" "n = int (fldtop cp')" "f = Some (fld cp')"
    by simp_all
  moreover have "n \<le> 1"
  proof -
    have "case csv_open (\<lambda>_. True) 0 0 0 None of None \<Rightarrow> False
        | Some cp \<Rightarrow>
            (case csv_feed (\<lambda>_. True) cp (Some [LF]) 1 of None \<Rightarrow> False
             | Some (cp', b, rc, f, n) \<Rightarrow> n \<le> 1)"
      by code_simp
    with o r show ?thesis by simp
  qed
  ultimately show ?thesis using o r l by auto
qed

text \<open>
  Claim C2.  The buffer \<^verbatim>\<open>a\<close> CR ends after a CR whose next byte is not there yet.
  \<^verbatim>\<open>csv_line\<close> does not return 0 for it: it returns -1 with \<^verbatim>\<open>CSV_ECRLF\<close>, although the
  same bytes followed by LF are a row.  (Where the buffer ends inside a field or after a
  closing quote it does return 0.)
\<close>

theorem C2_CR_at_end_of_buffer:
  "\<exists>cp cp1 cp2 cp3 cp4.
     csv_open (\<lambda>_. True) 0 0 0 None = Some cp \<and>
     csv_line (\<lambda>_. True) cp (Some (''a'' @ [CR])) 2 = Some (cp1, Some (''a'' @ [CR]), -1) \<and>
     errnum (state cp1) = CSV_ECRLF \<and>
     csv_line (\<lambda>_. True) cp (Some (''a'' @ [CR, LF])) 3 = Some (cp2, Some (''a'' @ [CR, LF]), 3) \<and>
     csv_line (\<lambda>_. True) cp (Some ''a'') 1 = Some (cp3, Some ''a'', 0) \<and>
     csv_line (\<lambda>_. True) cp (Some ([CHR 0x22] @ ''a'' @ [CHR 0x22])) 3 =
       Some (cp4, Some ([CHR 0x22] @ ''a'' @ [CHR 0x22]), 0)"
proof -
  have "case csv_open (\<lambda>_. True) 0 0 0 None of None \<Rightarrow> False
        | Some cp \<Rightarrow>
            (case csv_line (\<lambda>_. True) cp (Some (''a'' @ [CR])) 2 of None \<Rightarrow> False
             | Some (cp1, b1, rc1) \<Rightarrow>
                 b1 = Some (''a'' @ [CR]) \<and> rc1 = -1 \<and> errnum (state cp1) = CSV_ECRLF) \<and>
            (case csv_line (\<lambda>_. True) cp (Some (''a'' @ [CR, LF])) 3 of None \<Rightarrow> False
             | Some (cp2, b2, rc2) \<Rightarrow> b2 = Some (''a'' @ [CR, LF]) \<and> rc2 = 3) \<and>
            (case csv_line (\<lambda>_. True) cp (Some ''a'') 1 of None \<Rightarrow> False
             | Some (cp3, b3, rc3) \<Rightarrow> b3 = Some ''a'' \<and> rc3 = 0) \<and>
            (case csv_line (\<lambda>_. True) cp (Some ([CHR 0x22] @ ''a'' @ [CHR 0x22])) 3 of
               None \<Rightarrow> False
             | Some (cp4, b4, rc4) \<Rightarrow> b4 = Some ([CHR 0x22] @ ''a'' @ [CHR 0x22]) \<and> rc4 = 0)"
    by code_simp
  then show ?thesis by (auto split: option.splits)
qed

text \<open>
  Claim C1.  The input \<^verbatim>\<open>a\<close> CR LF \<^verbatim>\<open>b\<close> CR LF has two rows.  Fed whole, \<^verbatim>\<open>csv_scan\<close> returns 0
  and hands out the rows \<^verbatim>\<open>a\<close> and \<^verbatim>\<open>b\<close>.  Fed as the two chunks \<^verbatim>\<open>a\<close> CR and LF \<^verbatim>\<open>b\<close> CR LF
  it returns -1, hands out no row and calls \<^verbatim>\<open>on_error\<close> with a parser whose error is
  \<^verbatim>\<open>CSV_ECRLF\<close>: the first chunk ends after the CR.
\<close>

theorem C1_split_between_CR_and_LF:
  "scan_chunks [''a'' @ [CR, LF] @ ''b'' @ [CR, LF]] =
     Some (0, \<lparr>chunks = [], rows = [[Some ''a''], [Some ''b'']], errors = []\<rparr>) \<and>
   scan_chunks [''a'' @ [CR], [LF] @ ''b'' @ [CR, LF]] =
     Some (-1, \<lparr>chunks = [[LF] @ ''b'' @ [CR, LF]], rows = [],
                 errors = [(CSV_NOERR, None, Some CSV_ECRLF)]\<rparr>)"
  by code_simp



text \<open>
  Claim C4.  For a final buffer of \<open>bufsz > 0\<close> bytes whose last byte is not LF, when
  \<open>bufsz + 2\<close> does not overflow the \<^verbatim>\<open>int\<close> and the copy can be allocated: \<^verbatim>\<open>csv_feed_last\<close>
  parses, once and with \<^verbatim>\<open>csv_feed\<close>, the copy of the bytes with LF (and a NUL) appended,
  over \<open>bufsz + 1\<close> bytes; the copy is \<^verbatim>\<open>cp->lastbuf\<close>, the caller's buffer is left as it was,
  and a positive result of the parse is returned less one.
\<close>

theorem C4_feed_last_appends_LF:
  assumes "0 < bufsz" and "bufsz + 2 \<le> INT_MAX" and "bufsz \<le> int (length mem)"
    and "mem ! (nat bufsz - 1) \<noteq> LF" and "alloc (Bytes (bufsz + 2))"
  shows "csv_feed_last alloc cp (Some mem) bufsz =
           (case csv_feed alloc (cp\<lparr>lastbuf := Some (take (nat bufsz) mem @ [LF, NUL])\<rparr>)
                   (Some (take (nat bufsz) mem @ [LF, NUL])) (bufsz + 1) of
              None \<Rightarrow> None
            | Some (cp', copy, n, field, nfield) \<Rightarrow>
                Some (cp'\<lparr>lastbuf := copy\<rparr>, Some mem, if 0 < n then n - 1 else n, field, nfield))"
  using assms by (simp add: csv_feed_last_def Let_def)

text \<open>
  The final chunk \<^verbatim>\<open>a,b\<close> with the default configuration: one row with the fields \<^verbatim>\<open>a\<close> and
  \<^verbatim>\<open>b\<close>, read from the copy, and the return value 3, the length of the chunk.
\<close>

theorem C4_feed_last_appends_LF_witness:
  "\<exists>cp cp' f copy.
     csv_open (\<lambda>_. True) 0 0 0 None = Some cp \<and>
     csv_feed_last (\<lambda>_. True) cp (Some ''a,b'') 3 = Some (cp', Some ''a,b'', 3, Some f, 2) \<and>
     lastbuf cp' = Some copy \<and> row_of copy f 2 = [Some ''a'', Some ''b'']"
proof -
  have "case csv_open (\<lambda>_. True) 0 0 0 None of None \<Rightarrow> False
        | Some cp \<Rightarrow>
            (case csv_feed (\<lambda>_. True) (cp\<lparr>lastbuf := Some (take (nat 3) ''a,b'' @ [LF, NUL])\<rparr>)
                    (Some (take (nat 3) ''a,b'' @ [LF, NUL])) (3 + 1) of
               None \<Rightarrow> False
             | Some (cp', copy, n, field, nfield) \<Rightarrow>
                 n = 4 \<and> nfield = 2 \<and>
                 (case (field, copy) of
                    (Some f, Some copy) \<Rightarrow> row_of copy f 2 = [Some ''a'', Some ''b'']
                  | _ \<Rightarrow> False))"
    by code_simp
  then obtain cp cp' copy f where
    o: "csv_open (\<lambda>_. True) 0 0 0 None = Some cp" and
    r: "csv_feed (\<lambda>_. True) (cp\<lparr>lastbuf := Some (take (nat 3) ''a,b'' @ [LF, NUL])\<rparr>)
          (Some (take (nat 3) ''a,b'' @ [LF, NUL])) (3 + 1) = Some (cp', Some copy, 4, Some f, 2)" and
    w: "row_of copy f 2 = [Some ''a'', Some ''b'']"
    by (auto split: option.splits)
  have "csv_feed_last (\<lambda>_. True) cp (Some ''a,b'') 3 =
          Some (cp'\<lparr>lastbuf := Some copy\<rparr>, Some ''a,b'', 3, Some f, 2)"
    using C4_feed_last_appends_LF [of 3 "''a,b''" "\<lambda>_. True" cp] r by (simp add: INT_MAX_def)
  with o w show ?thesis by auto
qed

section \<open>Claims about the fields of a row\<close>










end
